theory Spec2Isabelle
  imports Main
begin

section \<open>Data model of can-i-delete.ts\<close>

text \<open>
  A \<open>RelationRecord\<close> is one row of the foreign-key query: \<open>name\<close> is the table that
  holds the foreign key (the referencing, child table), \<open>table\<close> is the referenced
  (parent) table and \<open>on_delete\<close> the delete action as the database prints it.
  The columns \<open>from\<close> and \<open>to\<close> of the source type are never read and are left out.
\<close>

record RelationRecord =
  name :: string
  table :: string
  on_delete :: string

text \<open>
  The source shares \<open>Table\<close> objects by reference and mutates them in place.  The model
  keeps every object in a store, a list of tables, and a reference is the index of the
  object in that list: two references are the same object exactly when the indices are
  equal.  Objects are never freed, so allocating appends to the store.
\<close>

datatype Owner = Parent | Self

record TableRelation =
  parent :: nat
  owner :: Owner
  table :: nat
  cascades :: bool

record Table =
  name :: string
  relations :: "TableRelation list"
  collected :: bool

text \<open>
  The module-level state: the object store, the registry \<open>allTables\<close> (a map from table
  names to objects) and the set \<open>checkedTables\<close> of objects the search has entered.
\<close>

record State =
  heap :: "Table list"
  allTables :: "string \<rightharpoonup> nat"
  checkedTables :: "nat set"

text \<open>The value \<open>findNonCascading\<close> returns when it is not \<open>null\<close>.\<close>

record Found =
  found :: TableRelation
  relationChain :: "string list"

section \<open>The registry\<close>

definition tableFor :: "string \<Rightarrow> State \<Rightarrow> nat \<times> State" where
  "tableFor tableName s =
     (case allTables s tableName of
        Some existing \<Rightarrow> (existing, s)
      | None \<Rightarrow>
          (length (heap s),
           s\<lparr>heap := heap s @ [\<lparr>Table.name = tableName, relations = [], collected = False\<rparr>],
             allTables := (allTables s)(tableName \<mapsto> length (heap s))\<rparr>))"

section \<open>Building the relation graph\<close>

definition push :: "nat \<Rightarrow> TableRelation \<Rightarrow> State \<Rightarrow> State" where
  "push t r s =
     s\<lparr>heap := (heap s)[t := (heap s ! t)\<lparr>relations := relations (heap s ! t) @ [r]\<rparr>]\<rparr>"

definition setCollected :: "nat \<Rightarrow> State \<Rightarrow> State" where
  "setCollected t s = s\<lparr>heap := (heap s)[t := (heap s ! t)\<lparr>collected := True\<rparr>]\<rparr>"

text \<open>
  The first loop of \<open>collectRelations\<close>, over the rows of the query.  The parameter
  \<open>rec\<close> is the recursive call.
\<close>

primrec collectRows ::
  "(nat \<Rightarrow> State \<Rightarrow> State option) \<Rightarrow> nat \<Rightarrow> RelationRecord list \<Rightarrow> State \<Rightarrow> State option"
where
  "collectRows rec t [] s = Some s"
| "collectRows rec t (dbRelation # rest) s =
     (if RelationRecord.name dbRelation = Table.name (heap s ! t) then
        (case tableFor (RelationRecord.table dbRelation) s of
           (relatedTable, s1) \<Rightarrow>
             (case rec relatedTable
                     (push t \<lparr>parent = t, owner = Parent, table = relatedTable,
                              cascades = (on_delete dbRelation = ''CASCADE'')\<rparr> s1) of
                None \<Rightarrow> None
              | Some s2 \<Rightarrow> collectRows rec t rest s2))
      else if RelationRecord.table dbRelation = Table.name (heap s ! t) then
        (case tableFor (RelationRecord.name dbRelation) s of
           (relatedTable, s1) \<Rightarrow>
             (case rec relatedTable
                     (push t \<lparr>parent = t, owner = Self, table = relatedTable,
                              cascades = (on_delete dbRelation = ''CASCADE'')\<rparr> s1) of
                None \<Rightarrow> None
              | Some s2 \<Rightarrow> collectRows rec t rest s2))
      else collectRows rec t rest s)"

text \<open>The second loop of \<open>collectRelations\<close>, over the relations of the table.\<close>

primrec collectRelated ::
  "(nat \<Rightarrow> State \<Rightarrow> State option) \<Rightarrow> TableRelation list \<Rightarrow> State \<Rightarrow> State option"
where
  "collectRelated rec [] s = Some s"
| "collectRelated rec (r # rest) s =
     (case rec (TableRelation.table r) s of
        None \<Rightarrow> None
      | Some s1 \<Rightarrow> collectRelated rec rest s1)"

text \<open>
  \<open>collectRelations\<close> calls itself inside both loops.  The first argument bounds the
  depth of the calls; \<open>None\<close> means that the bound was too small.  \<open>rels\<close> is the
  module-level constant \<open>relations\<close>, the result of the query.

  The second loop runs over the array \<open>table.relations\<close> as it is when the loop starts.
  The array cannot grow while the loop runs: only the call for a table pushes to that
  table's array, and the table is marked \<open>collected\<close> by then, so every call for it
  returns at once.
\<close>

primrec collectRelations ::
  "nat \<Rightarrow> RelationRecord list \<Rightarrow> nat \<Rightarrow> State \<Rightarrow> State option"
where
  "collectRelations 0 rels t s = None"
| "collectRelations (Suc depth) rels t s =
     (if collected (heap s ! t) then Some s
      else
        (case collectRows (collectRelations depth rels) t rels (setCollected t s) of
           None \<Rightarrow> None
         | Some s1 \<Rightarrow>
             collectRelated (collectRelations depth rels) (relations (heap s1 ! t)) s1))"

section \<open>The search\<close>

primrec findRelations ::
  "(nat \<Rightarrow> State \<Rightarrow> (Found option \<times> State) option) \<Rightarrow> TableRelation list \<Rightarrow> State
     \<Rightarrow> (Found option \<times> State) option"
where
  "findRelations rec [] s = Some (None, s)"
| "findRelations rec (relation # rest) s =
     (if owner relation = Parent then findRelations rec rest s
      else if \<not> cascades relation then
        Some (Some \<lparr>found = relation,
                    relationChain = [Table.name (heap s ! parent relation),
                                     Table.name (heap s ! TableRelation.table relation)]\<rparr>, s)
      else
        (case rec (TableRelation.table relation) s of
           None \<Rightarrow> None
         | Some (None, s1) \<Rightarrow> findRelations rec rest s1
         | Some (Some result, s1) \<Rightarrow>
             Some (Some (result\<lparr>relationChain :=
                           Table.name (heap s1 ! parent relation) # relationChain result\<rparr>), s1)))"

primrec findNonCascading :: "nat \<Rightarrow> nat \<Rightarrow> State \<Rightarrow> (Found option \<times> State) option" where
  "findNonCascading 0 t s = None"
| "findNonCascading (Suc depth) t s =
     (if t \<in> checkedTables s then Some (None, s)
      else findRelations (findNonCascading depth) (relations (heap s ! t))
             (s\<lparr>checkedTables := insert t (checkedTables s)\<rparr>))"

section \<open>The program\<close>

text \<open>
  The state when \<open>collectRelations(table)\<close> is called: the target's object is the only
  one in the store, at index 0, and it is not entered in the registry.
\<close>

definition initial :: "string \<Rightarrow> State" where
  "initial targetTable =
     \<lparr>heap = [\<lparr>Table.name = targetTable, relations = [], collected = False\<rparr>],
      allTables = Map.empty, checkedTables = {}\<rparr>"

definition build :: "nat \<Rightarrow> RelationRecord list \<Rightarrow> string \<Rightarrow> State option" where
  "build depth rels targetTable = collectRelations depth rels 0 (initial targetTable)"

definition canIDelete ::
  "nat \<Rightarrow> RelationRecord list \<Rightarrow> string \<Rightarrow> (Found option \<times> State) option" where
  "canIDelete depth rels targetTable =
     (case build depth rels targetTable of
        None \<Rightarrow> None
      | Some s \<Rightarrow> findNonCascading depth 0 s)"

section \<open>Predicates on the object graph\<close>

subsection \<open>The build\<close>

definition tableNames :: "RelationRecord list \<Rightarrow> string set" where
  "tableNames rels = RelationRecord.name ` set rels \<union> RelationRecord.table ` set rels"

definition unregistered :: "RelationRecord list \<Rightarrow> State \<Rightarrow> nat" where
  "unregistered rels s = card (tableNames rels - dom (allTables s))"

definition registry :: "State \<Rightarrow> bool" where
  "registry s \<longleftrightarrow>
     0 < length (heap s) \<and>
     (\<forall>n a. allTables s n = Some a \<longleftrightarrow>
        (0 < a \<and> a < length (heap s) \<and> Table.name (heap s ! a) = n))"

definition wfRelations :: "State \<Rightarrow> bool" where
  "wfRelations s \<longleftrightarrow>
     (\<forall>a<length (heap s). \<forall>r\<in>set (relations (heap s ! a)).
        parent r = a \<and> 0 < TableRelation.table r \<and> TableRelation.table r < length (heap s))"

definition view :: "Table list \<Rightarrow> TableRelation \<Rightarrow> Owner \<times> string \<times> bool" where
  "view H r = (owner r, Table.name (H ! TableRelation.table r), cascades r)"

primrec expected :: "string \<Rightarrow> RelationRecord list \<Rightarrow> (Owner \<times> string \<times> bool) list" where
  "expected n [] = []"
| "expected n (e # es) =
     (if RelationRecord.name e = n then
        (Parent, RelationRecord.table e, on_delete e = ''CASCADE'') # expected n es
      else if RelationRecord.table e = n then
        (Self, RelationRecord.name e, on_delete e = ''CASCADE'') # expected n es
      else expected n es)"

definition full :: "RelationRecord list \<Rightarrow> Table list \<Rightarrow> nat \<Rightarrow> bool" where
  "full rels H a \<longleftrightarrow>
     collected (H ! a) \<and> map (view H) (relations (H ! a)) = expected (Table.name (H ! a)) rels"

definition settled :: "State \<Rightarrow> bool" where
  "settled s \<longleftrightarrow>
     registry s \<and> wfRelations s \<and> (\<forall>a<length (heap s). collected (heap s ! a))"

definition extends :: "RelationRecord list \<Rightarrow> State \<Rightarrow> State \<Rightarrow> bool" where
  "extends rels s s' \<longleftrightarrow>
     length (heap s) \<le> length (heap s') \<and>
     (\<forall>a<length (heap s). Table.name (heap s' ! a) = Table.name (heap s ! a)) \<and>
     checkedTables s' = checkedTables s \<and>
     unregistered rels s' \<le> unregistered rels s \<and>
     length (heap s') + unregistered rels s' \<le> length (heap s) + unregistered rels s"

definition collectPre :: "nat \<Rightarrow> State \<Rightarrow> bool" where
  "collectPre t s \<longleftrightarrow>
     registry s \<and> wfRelations s \<and> t < length (heap s) \<and>
     (\<forall>a<length (heap s). a \<noteq> t \<longrightarrow> collected (heap s ! a)) \<and>
     (\<not> collected (heap s ! t) \<longrightarrow> relations (heap s ! t) = [])"

definition collectPost :: "RelationRecord list \<Rightarrow> State \<Rightarrow> State \<Rightarrow> bool" where
  "collectPost rels s s' \<longleftrightarrow>
     settled s' \<and> extends rels s s' \<and>
     (\<forall>a<length (heap s). collected (heap s ! a) \<longrightarrow> heap s' ! a = heap s ! a) \<and>
     (\<forall>a<length (heap s'). (a < length (heap s) \<longrightarrow> \<not> collected (heap s ! a)) \<longrightarrow> full rels (heap s') a)"

definition stepPost ::
  "RelationRecord list \<Rightarrow> nat \<Rightarrow> Owner \<times> string \<times> bool \<Rightarrow> State \<Rightarrow> State \<Rightarrow> bool" where
  "stepPost rels t v s s' \<longleftrightarrow>
     settled s' \<and> extends rels s s' \<and>
     (\<forall>a<length (heap s). a \<noteq> t \<longrightarrow> heap s' ! a = heap s ! a) \<and>
     (\<exists>r. heap s' ! t = (heap s ! t)\<lparr>relations := relations (heap s ! t) @ [r]\<rparr> \<and> view (heap s') r = v) \<and>
     (\<forall>a. length (heap s) \<le> a \<and> a < length (heap s') \<longrightarrow> full rels (heap s') a)"

definition rowsPost ::
  "RelationRecord list \<Rightarrow> nat \<Rightarrow> RelationRecord list \<Rightarrow> State \<Rightarrow> State \<Rightarrow> bool" where
  "rowsPost rels t es s s' \<longleftrightarrow>
     settled s' \<and> extends rels s s' \<and>
     (\<forall>a<length (heap s). a \<noteq> t \<longrightarrow> heap s' ! a = heap s ! a) \<and>
     (\<exists>new. heap s' ! t = (heap s ! t)\<lparr>relations := relations (heap s ! t) @ new\<rparr> \<and>
            map (view (heap s')) new = expected (Table.name (heap s ! t)) es) \<and>
     (\<forall>a. length (heap s) \<le> a \<and> a < length (heap s') \<longrightarrow> full rels (heap s') a)"

subsection \<open>The search\<close>

definition frame :: "State \<Rightarrow> State \<Rightarrow> bool" where
  "frame s s' \<longleftrightarrow>
     heap s' = heap s \<and> allTables s' = allTables s \<and> checkedTables s \<subseteq> checkedTables s'"

definition linked :: "Table list \<Rightarrow> nat \<Rightarrow> nat \<Rightarrow> bool" where
  "linked H a b \<longleftrightarrow>
     (\<exists>r\<in>set (relations (H ! a)). owner r = Self \<and> cascades r \<and> TableRelation.table r = b)"

primrec cpath :: "Table list \<Rightarrow> nat \<Rightarrow> nat list \<Rightarrow> bool" where
  "cpath H a [] = True"
| "cpath H a (b # p) = (linked H a b \<and> cpath H b p)"

definition isWitness :: "Table list \<Rightarrow> nat \<Rightarrow> Found \<Rightarrow> bool" where
  "isWitness H t w \<longleftrightarrow>
     (\<exists>p. cpath H t p \<and> parent (found w) = last (t # p)
        \<and> found w \<in> set (relations (H ! last (t # p)))
        \<and> owner (found w) = Self \<and> \<not> cascades (found w)
        \<and> relationChain w =
            map (\<lambda>a. Table.name (H ! a)) (t # p) @ [Table.name (H ! TableRelation.table (found w))])"

definition closedUnder :: "Table list \<Rightarrow> nat set \<Rightarrow> nat set \<Rightarrow> bool" where
  "closedUnder H N C \<longleftrightarrow>
     (\<forall>a\<in>N. \<forall>r\<in>set (relations (H ! a)).
        owner r = Self \<longrightarrow> cascades r \<and> TableRelation.table r \<in> C)"

definition wfHeap :: "Table list \<Rightarrow> bool" where
  "wfHeap H \<longleftrightarrow>
     (\<forall>a<length H. \<forall>r\<in>set (relations (H ! a)). parent r = a \<and> TableRelation.table r < length H)"

definition unvisited :: "State \<Rightarrow> nat" where
  "unvisited s = card ({..<length (heap s)} - checkedTables s)"

definition searchPost :: "nat \<Rightarrow> State \<Rightarrow> Found option \<Rightarrow> State \<Rightarrow> bool" where
  "searchPost t s res s' \<longleftrightarrow>
     frame s s' \<and> t \<in> checkedTables s' \<and>
     (case res of
        None \<Rightarrow> closedUnder (heap s) (checkedTables s' - checkedTables s) (checkedTables s')
      | Some w \<Rightarrow> isWitness (heap s) t w)"

subsection \<open>The schema\<close>

text \<open>
  Reachability in the schema itself: from the target table to every table that
  references a reachable table.
\<close>

inductive reach :: "RelationRecord list \<Rightarrow> string \<Rightarrow> string \<Rightarrow> bool"
  for rels :: "RelationRecord list" and targetTable :: string
where
  reach_target: "reach rels targetTable targetTable"
| reach_child: "reach rels targetTable p \<Longrightarrow> e \<in> set rels \<Longrightarrow> RelationRecord.table e = p \<Longrightarrow>
     reach rels targetTable (RelationRecord.name e)"

definition built :: "RelationRecord list \<Rightarrow> string \<Rightarrow> State \<Rightarrow> bool" where
  "built rels targetTable s \<longleftrightarrow>
     settled s \<and> (\<forall>a<length (heap s). full rels (heap s) a) \<and>
     Table.name (heap s ! 0) = targetTable \<and> checkedTables s = {} \<and>
     length (heap s) \<le> card (tableNames rels) + 1"

text \<open>Two calls of the search, one after the other, on the same module state.\<close>

definition searchTwice ::
  "nat \<Rightarrow> nat \<Rightarrow> nat \<Rightarrow> State \<Rightarrow> (Found option \<times> State) option" where
  "searchTwice depth r1 r2 s =
     (case findNonCascading depth r1 s of
        None \<Rightarrow> None
      | Some (res1, s1) \<Rightarrow> findNonCascading depth r2 s1)"

subsection \<open>Reading results, and examples\<close>

text \<open>
  What the program reports: \<open>None\<close> when the depth bound was too small, \<open>Some None\<close>
  when the search returns \<open>null\<close> (all relations cascade), and \<open>Some (Some chain)\<close> when
  it returns a non-cascading relation with its chain of table names.
\<close>

definition chainOf :: "(Found option \<times> State) option \<Rightarrow> string list option option" where
  "chainOf out = map_option (\<lambda>x. map_option relationChain (fst x)) out"

text \<open>A row of the query: \<open>child\<close> references \<open>referenced\<close> with the given delete action.\<close>

definition row :: "string \<Rightarrow> string \<Rightarrow> string \<Rightarrow> RelationRecord" where
  "row child referenced action =
     \<lparr>RelationRecord.name = child, table = referenced, on_delete = action\<rparr>"

text \<open>
  The module state after the build for the schema in which \<open>orders\<close> references
  \<open>customers\<close> with \<open>CASCADE\<close>, and the target \<open>customers\<close> (lemma \<open>build_ordersGraph\<close>).
\<close>

definition ordersGraph :: State where
  "ordersGraph =
     \<lparr>heap =
        [\<lparr>Table.name = ''customers'',
          relations = [\<lparr>parent = 0, owner = Self, table = 1, cascades = True\<rparr>],
          collected = True\<rparr>,
         \<lparr>Table.name = ''orders'',
          relations = [\<lparr>parent = 1, owner = Parent, table = 2, cascades = True\<rparr>],
          collected = True\<rparr>,
         \<lparr>Table.name = ''customers'',
          relations = [\<lparr>parent = 2, owner = Self, table = 1, cascades = True\<rparr>],
          collected = True\<rparr>],
      allTables = [''orders'' \<mapsto> 1, ''customers'' \<mapsto> 2],
      checkedTables = {}\<rparr>"

text \<open>
  The same with the delete action \<open>NO ACTION\<close> (lemma \<open>build_blockedGraph\<close>).
\<close>

definition blockedGraph :: State where
  "blockedGraph =
     \<lparr>heap =
        [\<lparr>Table.name = ''customers'',
          relations = [\<lparr>parent = 0, owner = Self, table = 1, cascades = False\<rparr>],
          collected = True\<rparr>,
         \<lparr>Table.name = ''orders'',
          relations = [\<lparr>parent = 1, owner = Parent, table = 2, cascades = False\<rparr>],
          collected = True\<rparr>,
         \<lparr>Table.name = ''customers'',
          relations = [\<lparr>parent = 2, owner = Self, table = 1, cascades = False\<rparr>],
          collected = True\<rparr>],
      allTables = [''orders'' \<mapsto> 1, ''customers'' \<mapsto> 2],
      checkedTables = {}\<rparr>"

section \<open>The build establishes the graph\<close>

lemma extends_refl: "extends rels s s"
  by (simp add: extends_def)

lemma extends_trans: "extends rels s s1 \<Longrightarrow> extends rels s1 s2 \<Longrightarrow> extends rels s s2"
  by (auto simp: extends_def)

lemma full_preserved:
  assumes "full rels H a" "H' ! a = H ! a"
    "\<forall>r\<in>set (relations (H ! a)). Table.name (H' ! TableRelation.table r) = Table.name (H ! TableRelation.table r)"
  shows "full rels H' a"
proof -
  have "map (view H') (relations (H ! a)) = map (view H) (relations (H ! a))"
    using assms(3) by (intro map_cong) (simp_all add: view_def)
  with assms(1,2) show ?thesis by (simp add: full_def)
qed

lemma collect_collected:
  "0 < d \<Longrightarrow> collected (heap s ! t) \<Longrightarrow> collectRelations d rels t s = Some s"
  by (cases d) simp_all

lemma related_noop:
  assumes "\<And>u. u \<in> TableRelation.table ` set rs \<Longrightarrow> rec u s = Some s"
  shows "collectRelated rec rs s = Some s"
  using assms by (induction rs) simp_all

lemma finite_tableNames: "finite (tableNames rels)"
  by (simp add: tableNames_def)

lemma unregistered_fresh:
  assumes "n \<in> tableNames rels" "allTables s n = None" "allTables s' = (allTables s)(n \<mapsto> a)"
  shows "Suc (unregistered rels s') = unregistered rels s"
proof -
  have eq: "tableNames rels - dom (allTables s') = (tableNames rels - dom (allTables s)) - {n}"
    using assms(3) by auto
  have "finite (tableNames rels - dom (allTables s))"
    using finite_tableNames by simp
  moreover have "n \<in> tableNames rels - dom (allTables s)" using assms(1,2) by auto
  ultimately have "Suc (card ((tableNames rels - dom (allTables s)) - {n})) = card (tableNames rels - dom (allTables s))"
    by (rule card_Suc_Diff1)
  with eq show ?thesis by (simp add: unregistered_def)
qed


lemma step_existing:
  assumes st: "settled s" and t: "t < length (heap s)" and reg: "allTables s n = Some rt"
    and s2: "s2 = push t \<lparr>parent = t, owner = ow, table = rt, cascades = c\<rparr> s"
  shows "collected (heap s2 ! rt)" and "stepPost rels t (ow, n, c) s s2"
proof -
  from st have regs: "registry s" and wf: "wfRelations s"
    and coll: "\<forall>a<length (heap s). collected (heap s ! a)"
    by (simp_all add: settled_def)
  from regs reg have rt: "0 < rt" "rt < length (heap s)" "Table.name (heap s ! rt) = n"
    by (auto simp: registry_def)
  have len: "length (heap s2) = length (heap s)" by (simp add: s2 push_def)
  have at: "allTables s2 = allTables s" and ch: "checkedTables s2 = checkedTables s"
    by (simp_all add: s2 push_def)
  have ht: "heap s2 ! t = (heap s ! t)\<lparr>relations := relations (heap s ! t) @
              [\<lparr>parent = t, owner = ow, table = rt, cascades = c\<rparr>]\<rparr>"
    using t by (simp add: s2 push_def)
  have ho: "heap s2 ! a = heap s ! a" if "a \<noteq> t" for a
    using that by (simp add: s2 push_def)
  have nm: "Table.name (heap s2 ! a) = Table.name (heap s ! a)" for a
    by (cases "a = t") (simp_all add: ht ho)
  have cl: "collected (heap s2 ! a) = collected (heap s ! a)" for a
    by (cases "a = t") (simp_all add: ht ho)
  show "collected (heap s2 ! rt)" using coll rt(2) by (simp add: cl)
  have r2: "registry s2" using regs by (simp add: registry_def len at nm)
  have w2: "wfRelations s2"
    unfolding wfRelations_def
  proof (intro allI impI ballI)
    fix a r assume a: "a < length (heap s2)" and r: "r \<in> set (relations (heap s2 ! a))"
    show "parent r = a \<and> 0 < TableRelation.table r \<and> TableRelation.table r < length (heap s2)"
    proof (cases "a = t")
      case True
      with r ht have "r \<in> set (relations (heap s ! t)) \<or> r = \<lparr>parent = t, owner = ow, table = rt, cascades = c\<rparr>"
        by auto
      with wf t rt True show ?thesis by (auto simp: wfRelations_def len)
    next
      case False
      with r ho have "r \<in> set (relations (heap s ! a))" by simp
      with wf a show ?thesis by (auto simp: wfRelations_def len)
    qed
  qed
  have st2: "settled s2" using r2 w2 coll by (simp add: settled_def len cl)
  have ex: "extends rels s s2" by (simp add: extends_def len nm ch unregistered_def at)
  have vw: "view (heap s2) \<lparr>parent = t, owner = ow, table = rt, cascades = c\<rparr> = (ow, n, c)"
    by (simp add: view_def nm rt)
  show "stepPost rels t (ow, n, c) s s2"
    unfolding stepPost_def using st2 ex ho ht vw len by auto
qed

lemma step_fresh:
  assumes st: "settled s" and t: "t < length (heap s)" and reg: "allTables s n = None"
    and s1: "s1 = s\<lparr>heap := heap s @ [\<lparr>Table.name = n, relations = [], collected = False\<rparr>],
                     allTables := (allTables s)(n \<mapsto> length (heap s))\<rparr>"
    and s2: "s2 = push t \<lparr>parent = t, owner = ow, table = length (heap s), cascades = c\<rparr> s1"
  shows "collectPre (length (heap s)) s2"
    and "\<not> collected (heap s2 ! length (heap s))"
    and "length (heap s2) = Suc (length (heap s))"
    and "allTables s2 = (allTables s)(n \<mapsto> length (heap s))"
    and "checkedTables s2 = checkedTables s"
    and "Table.name (heap s2 ! length (heap s)) = n"
    and "\<forall>a<length (heap s). a \<noteq> t \<longrightarrow> heap s2 ! a = heap s ! a"
    and "heap s2 ! t = (heap s ! t)\<lparr>relations := relations (heap s ! t) @
              [\<lparr>parent = t, owner = ow, table = length (heap s), cascades = c\<rparr>]\<rparr>"
    and "\<forall>a<length (heap s). collected (heap s2 ! a)"
proof -
  from st have regs: "registry s" and wf: "wfRelations s"
    and coll: "\<forall>a<length (heap s). collected (heap s ! a)"
    by (simp_all add: settled_def)
  from regs have pos: "0 < length (heap s)" by (simp add: registry_def)
  show len: "length (heap s2) = Suc (length (heap s))" by (simp add: s2 s1 push_def)
  show at: "allTables s2 = (allTables s)(n \<mapsto> length (heap s))"
    by (simp add: s2 s1 push_def)
  show "checkedTables s2 = checkedTables s" by (simp add: s2 s1 push_def)
  show ht: "heap s2 ! t = (heap s ! t)\<lparr>relations := relations (heap s ! t) @
              [\<lparr>parent = t, owner = ow, table = length (heap s), cascades = c\<rparr>]\<rparr>"
    using t by (simp add: s2 s1 push_def nth_append)
  have hn: "heap s2 ! length (heap s) = \<lparr>Table.name = n, relations = [], collected = False\<rparr>"
    using t by (simp add: s2 s1 push_def nth_append)
  have ho: "heap s2 ! a = heap s ! a" if "a \<noteq> t" "a < length (heap s)" for a
    using that by (simp add: s2 s1 push_def nth_append)
  then show "\<forall>a<length (heap s). a \<noteq> t \<longrightarrow> heap s2 ! a = heap s ! a" by simp
  show "Table.name (heap s2 ! length (heap s)) = n" by (simp add: hn)
  show "\<not> collected (heap s2 ! length (heap s))" by (simp add: hn)
  have nm: "Table.name (heap s2 ! a) = Table.name (heap s ! a)" if "a < length (heap s)" for a
    using that by (cases "a = t") (simp_all add: ht ho)
  have cl: "collected (heap s2 ! a)" if "a < length (heap s)" for a
    using that coll by (cases "a = t") (simp_all add: ht ho)
  then show "\<forall>a<length (heap s). collected (heap s2 ! a)" by simp
  have r2: "registry s2"
    unfolding registry_def
  proof (intro conjI allI)
    show "0 < length (heap s2)" by (simp add: len)
    fix m a
    show "allTables s2 m = Some a \<longleftrightarrow>
        (0 < a \<and> a < length (heap s2) \<and> Table.name (heap s2 ! a) = m)"
    proof (cases "a < length (heap s)")
      case True
      have "Table.name (heap s ! a) \<noteq> n \<or> a = 0"
      proof (cases "a = 0")
        case False
        with regs True have "allTables s (Table.name (heap s ! a)) = Some a"
          by (simp add: registry_def)
        with reg show ?thesis by auto
      qed simp
      with regs True show ?thesis
        by (auto simp: registry_def at len nm)
    next
      case False
      from regs have "allTables s m \<noteq> Some a" using False by (auto simp: registry_def)
      with False pos show ?thesis by (auto simp: at len hn less_Suc_eq)
    qed
  qed
  have w2: "wfRelations s2"
    unfolding wfRelations_def
  proof (intro allI impI ballI)
    fix a r assume a: "a < length (heap s2)" and r: "r \<in> set (relations (heap s2 ! a))"
    show "parent r = a \<and> 0 < TableRelation.table r \<and> TableRelation.table r < length (heap s2)"
    proof (cases "a = t")
      case True
      with r ht have "r \<in> set (relations (heap s ! t)) \<or> r = \<lparr>parent = t, owner = ow, table = length (heap s), cascades = c\<rparr>"
        by auto
      with wf t pos True show ?thesis by (auto simp: wfRelations_def len less_Suc_eq)
    next
      case notT: False
      show ?thesis
      proof (cases "a < length (heap s)")
        case True
        with r ho notT have "r \<in> set (relations (heap s ! a))" by simp
        with wf True show ?thesis by (auto simp: wfRelations_def len less_Suc_eq)
      next
        case False
        with a have "a = length (heap s)" by (simp add: len)
        with r hn show ?thesis by simp
      qed
    qed
  qed
  show "collectPre (length (heap s)) s2"
    unfolding collectPre_def using r2 w2 cl hn by (auto simp: len less_Suc_eq)
qed


lemma step_spec:
  assumes rec: "\<And>u si. collectPre u si \<Longrightarrow> \<not> collected (heap si ! u) \<Longrightarrow>
                  unregistered rels si + 2 \<le> d \<Longrightarrow>
                  \<exists>s'. rec u si = Some s' \<and> collectPost rels si s'"
    and recC: "\<And>u si. collected (heap si ! u) \<Longrightarrow> rec u si = Some si"
    and st: "settled s" and t: "t < length (heap s)" and n: "n \<in> tableNames rels"
    and d: "unregistered rels s + 1 \<le> d"
    and tf: "tableFor n s = (rt, s1)"
  shows "\<exists>s3. rec rt (push t \<lparr>parent = t, owner = ow, table = rt, cascades = c\<rparr> s1) = Some s3 \<and>
           stepPost rels t (ow, n, c) s s3"
proof (cases "allTables s n")
  case (Some a)
  with tf have eq: "rt = a" "s1 = s" by (simp_all add: tableFor_def)
  let ?s2 = "push t \<lparr>parent = t, owner = ow, table = rt, cascades = c\<rparr> s"
  from Some eq have reg: "allTables s n = Some rt" by simp
  from step_existing [where ow = ow and c = c, OF st t reg refl]
  have "collected (heap ?s2 ! rt)" and post: "stepPost rels t (ow, n, c) s ?s2" by simp_all
  then have "rec rt ?s2 = Some ?s2" using recC by simp
  with post eq show ?thesis by simp
next
  case None
  let ?s1 = "s\<lparr>heap := heap s @ [\<lparr>Table.name = n, relations = [], collected = False\<rparr>],
                allTables := (allTables s)(n \<mapsto> length (heap s))\<rparr>"
  let ?s2 = "push t \<lparr>parent = t, owner = ow, table = length (heap s), cascades = c\<rparr> ?s1"
  from None tf have eq: "rt = length (heap s)" "s1 = ?s1" by (auto simp: tableFor_def)
  note f = step_fresh [where ow = ow and c = c, OF st t None refl refl]
  from unregistered_fresh [OF n None f(4)] d have d2: "unregistered rels ?s2 + 2 \<le> d"
    and u2: "Suc (unregistered rels ?s2) = unregistered rels s" by simp_all
  from rec [OF f(1) f(2) d2] obtain s3 where run: "rec (length (heap s)) ?s2 = Some s3"
    and post: "collectPost rels ?s2 s3" by blast
  from post have st3: "settled s3" and ex3: "extends rels ?s2 s3"
    and keep: "\<forall>a<length (heap ?s2). collected (heap ?s2 ! a) \<longrightarrow> heap s3 ! a = heap ?s2 ! a"
    and fl: "\<forall>a<length (heap s3). (a < length (heap ?s2) \<longrightarrow> \<not> collected (heap ?s2 ! a)) \<longrightarrow> full rels (heap s3) a"
    by (simp_all add: collectPost_def)
  have nm2: "Table.name (heap ?s2 ! a) = Table.name (heap s ! a)" if "a < length (heap s)" for a
    using that f(7) f(8) by (cases "a = t") simp_all
  have ex: "extends rels s s3"
    using ex3 u2 nm2 unfolding extends_def f(3) f(5) by auto
  have others: "\<forall>a<length (heap s). a \<noteq> t \<longrightarrow> heap s3 ! a = heap s ! a"
    using keep f(9) f(7) unfolding f(3) by auto
  have tt: "heap s3 ! t = (heap s ! t)\<lparr>relations := relations (heap s ! t) @
              [\<lparr>parent = t, owner = ow, table = length (heap s), cascades = c\<rparr>]\<rparr>"
    using keep f(9) f(8) t unfolding f(3) by auto
  have "Table.name (heap s3 ! length (heap s)) = n"
    using ex3 f(6) unfolding extends_def f(3) by auto
  then have vw: "view (heap s3) \<lparr>parent = t, owner = ow, table = length (heap s), cascades = c\<rparr> = (ow, n, c)"
    by (simp add: view_def)
  have new: "\<forall>a. length (heap s) \<le> a \<and> a < length (heap s3) \<longrightarrow> full rels (heap s3) a"
  proof (intro allI impI)
    fix a assume a: "length (heap s) \<le> a \<and> a < length (heap s3)"
    have "a < length (heap ?s2) \<longrightarrow> \<not> collected (heap ?s2 ! a)"
    proof
      assume "a < length (heap ?s2)"
      with a f(3) have "a = length (heap s)" by simp
      with f(2) show "\<not> collected (heap ?s2 ! a)" by simp
    qed
    with fl a show "full rels (heap s3) a" by blast
  qed
  have "stepPost rels t (ow, n, c) s s3"
    unfolding stepPost_def using st3 ex others tt vw new by blast
  with run eq show ?thesis by simp
qed

lemma rows_compose:
  assumes sp: "stepPost rels t v s s3" and rp: "rowsPost rels t es s3 s'" and t: "t < length (heap s)"
  shows "\<exists>new. heap s' ! t = (heap s ! t)\<lparr>relations := relations (heap s ! t) @ new\<rparr> \<and>
            map (view (heap s')) new = v # expected (Table.name (heap s ! t)) es"
    and "settled s' \<and> extends rels s s' \<and>
     (\<forall>a<length (heap s). a \<noteq> t \<longrightarrow> heap s' ! a = heap s ! a) \<and>
     (\<forall>a. length (heap s) \<le> a \<and> a < length (heap s') \<longrightarrow> full rels (heap s') a)"
proof -
  from sp obtain r where st3: "settled s3" and ex3: "extends rels s s3"
    and o3: "\<forall>a<length (heap s). a \<noteq> t \<longrightarrow> heap s3 ! a = heap s ! a"
    and t3: "heap s3 ! t = (heap s ! t)\<lparr>relations := relations (heap s ! t) @ [r]\<rparr>"
    and v3: "view (heap s3) r = v"
    and n3: "\<forall>a. length (heap s) \<le> a \<and> a < length (heap s3) \<longrightarrow> full rels (heap s3) a"
    unfolding stepPost_def by blast
  from rp obtain new where st': "settled s'" and ex': "extends rels s3 s'"
    and o': "\<forall>a<length (heap s3). a \<noteq> t \<longrightarrow> heap s' ! a = heap s3 ! a"
    and t': "heap s' ! t = (heap s3 ! t)\<lparr>relations := relations (heap s3 ! t) @ new\<rparr>"
    and v': "map (view (heap s')) new = expected (Table.name (heap s3 ! t)) es"
    and n': "\<forall>a. length (heap s3) \<le> a \<and> a < length (heap s') \<longrightarrow> full rels (heap s') a"
    unfolding rowsPost_def by blast
  from ex3 have len3: "length (heap s) \<le> length (heap s3)" by (simp add: extends_def)
  from ex' have nm': "\<forall>a<length (heap s3). Table.name (heap s' ! a) = Table.name (heap s3 ! a)"
    by (simp add: extends_def)
  from st3 have wf3: "wfRelations s3" by (simp add: settled_def)
  have t3len: "t < length (heap s3)" using t len3 by simp
  have "r \<in> set (relations (heap s3 ! t))" by (simp add: t3)
  with wf3 t3len have "TableRelation.table r < length (heap s3)" by (auto simp: wfRelations_def)
  with nm' have "view (heap s') r = view (heap s3) r" by (simp add: view_def)
  with v3 v' t3 have A: "map (view (heap s')) (r # new) = v # expected (Table.name (heap s ! t)) es"
    by simp
  have B: "heap s' ! t = (heap s ! t)\<lparr>relations := relations (heap s ! t) @ (r # new)\<rparr>"
    by (simp add: t' t3)
  show "\<exists>new. heap s' ! t = (heap s ! t)\<lparr>relations := relations (heap s ! t) @ new\<rparr> \<and>
            map (view (heap s')) new = v # expected (Table.name (heap s ! t)) es"
    using A B by (intro exI [of _ "r # new"] conjI)
  have ex: "extends rels s s'" using ex3 ex' by (rule extends_trans)
  have others: "\<forall>a<length (heap s). a \<noteq> t \<longrightarrow> heap s' ! a = heap s ! a"
    using o3 o' len3 by auto
  have new: "\<forall>a. length (heap s) \<le> a \<and> a < length (heap s') \<longrightarrow> full rels (heap s') a"
  proof (intro allI impI)
    fix a assume a: "length (heap s) \<le> a \<and> a < length (heap s')"
    show "full rels (heap s') a"
    proof (cases "a < length (heap s3)")
      case True
      with a n3 have f3: "full rels (heap s3) a" by simp
      from a t have "a \<noteq> t" by auto
      with o' True have same: "heap s' ! a = heap s3 ! a" by simp
      have "\<forall>r\<in>set (relations (heap s3 ! a)).
              Table.name (heap s' ! TableRelation.table r) = Table.name (heap s3 ! TableRelation.table r)"
        using wf3 True nm' by (auto simp: wfRelations_def)
      with f3 same show ?thesis by (rule full_preserved)
    next
      case False
      with a n' show ?thesis by simp
    qed
  qed
  from st' ex others new show "settled s' \<and> extends rels s s' \<and>
     (\<forall>a<length (heap s). a \<noteq> t \<longrightarrow> heap s' ! a = heap s ! a) \<and>
     (\<forall>a. length (heap s) \<le> a \<and> a < length (heap s') \<longrightarrow> full rels (heap s') a)"
    by blast
qed


lemma rowsPost_Nil: "settled s \<Longrightarrow> rowsPost rels t [] s s"
  unfolding rowsPost_def
proof (intro conjI)
  show "\<exists>new. heap s ! t = (heap s ! t)\<lparr>relations := relations (heap s ! t) @ new\<rparr> \<and>
      map (view (heap s)) new = expected (Table.name (heap s ! t)) []"
    by (rule exI [of _ "[]"]) simp
  show "\<forall>a. length (heap s) \<le> a \<and> a < length (heap s) \<longrightarrow> full rels (heap s) a"
    by auto
qed (simp_all add: extends_refl)

lemma rows_spec:
  assumes rec: "\<And>u si. collectPre u si \<Longrightarrow> \<not> collected (heap si ! u) \<Longrightarrow>
                  unregistered rels si + 2 \<le> d \<Longrightarrow>
                  \<exists>s'. rec u si = Some s' \<and> collectPost rels si s'"
    and recC: "\<And>u si. collected (heap si ! u) \<Longrightarrow> rec u si = Some si"
  shows "set es \<subseteq> set rels \<Longrightarrow> settled s \<Longrightarrow> t < length (heap s) \<Longrightarrow>
         unregistered rels s + 1 \<le> d \<Longrightarrow>
         \<exists>s'. collectRows rec t es s = Some s' \<and> rowsPost rels t es s s'"
proof (induction es arbitrary: s)
  case Nil
  from Nil.prems(2) have "rowsPost rels t [] s s" by (rule rowsPost_Nil)
  then show ?case by simp
next
  case (Cons e es)
  from Cons.prems(1) have e: "e \<in> set rels" and sub: "set es \<subseteq> set rels" by auto
  from e have names: "RelationRecord.table e \<in> tableNames rels" "RelationRecord.name e \<in> tableNames rels"
    by (auto simp: tableNames_def)
  have step: "\<exists>s'. (case tableFor n s of (relatedTable, s1) \<Rightarrow>
             (case rec relatedTable
                     (push t \<lparr>parent = t, owner = ow, table = relatedTable, cascades = c\<rparr> s1) of
                None \<Rightarrow> None
              | Some s2 \<Rightarrow> collectRows rec t es s2)) = Some s' \<and>
           settled s' \<and> extends rels s s' \<and>
           (\<forall>a<length (heap s). a \<noteq> t \<longrightarrow> heap s' ! a = heap s ! a) \<and>
           (\<exists>new. heap s' ! t = (heap s ! t)\<lparr>relations := relations (heap s ! t) @ new\<rparr> \<and>
              map (view (heap s')) new = (ow, n, c) # expected (Table.name (heap s ! t)) es) \<and>
           (\<forall>a. length (heap s) \<le> a \<and> a < length (heap s') \<longrightarrow> full rels (heap s') a)"
    if n: "n \<in> tableNames rels" for n ow c
  proof -
    obtain rt s1 where tf: "tableFor n s = (rt, s1)" by (cases "tableFor n s")
    from step_spec [where rec = rec and ow = ow and c = c, OF rec recC Cons.prems(2) Cons.prems(3) n Cons.prems(4) tf]
    obtain s3 where run3: "rec rt (push t \<lparr>parent = t, owner = ow, table = rt, cascades = c\<rparr> s1) = Some s3"
      and sp: "stepPost rels t (ow, n, c) s s3"
      by blast
    from sp have st3: "settled s3" and ex3: "extends rels s s3" by (simp_all add: stepPost_def)
    from ex3 Cons.prems(3) have t3: "t < length (heap s3)" by (simp add: extends_def)
    from ex3 Cons.prems(4) have d3: "unregistered rels s3 + 1 \<le> d" by (simp add: extends_def)
    from Cons.IH [OF sub st3 t3 d3] obtain s' where run: "collectRows rec t es s3 = Some s'"
      and rp: "rowsPost rels t es s3 s'" by blast
    note c = rows_compose [OF sp rp Cons.prems(3)]
    from tf run3 run have r: "(case tableFor n s of (relatedTable, s1) \<Rightarrow>
             (case rec relatedTable
                     (push t \<lparr>parent = t, owner = ow, table = relatedTable, cascades = c\<rparr> s1) of
                None \<Rightarrow> None
              | Some s2 \<Rightarrow> collectRows rec t es s2)) = Some s'"
      by simp
    from c(2) have c2: "settled s'" "extends rels s s'"
      "\<forall>a<length (heap s). a \<noteq> t \<longrightarrow> heap s' ! a = heap s ! a"
      "\<forall>a. length (heap s) \<le> a \<and> a < length (heap s') \<longrightarrow> full rels (heap s') a"
      by blast+
    show ?thesis
    proof (intro exI [of _ s'] conjI)
      show "\<exists>new. heap s' ! t = (heap s ! t)\<lparr>relations := relations (heap s ! t) @ new\<rparr> \<and>
              map (view (heap s')) new = (ow, n, c) # expected (Table.name (heap s ! t)) es"
        by (rule c(1))
    qed (rule r c2)+
  qed
  show ?case
  proof (cases "RelationRecord.name e = Table.name (heap s ! t)")
    case True
    then have eq1: "collectRows rec t (e # es) s =
        (case tableFor (RelationRecord.table e) s of (relatedTable, s1) \<Rightarrow>
             (case rec relatedTable
                     (push t \<lparr>parent = t, owner = Parent, table = relatedTable,
                        cascades = (on_delete e = ''CASCADE'')\<rparr> s1) of
                None \<Rightarrow> None
              | Some s2 \<Rightarrow> collectRows rec t es s2))"
      by simp
    from True have eq2: "expected (Table.name (heap s ! t)) (e # es) =
        (Parent, RelationRecord.table e, on_delete e = ''CASCADE'') # expected (Table.name (heap s ! t)) es"
      by simp
    show ?thesis unfolding rowsPost_def eq1 eq2 by (rule step [OF names(1)])
  next
    case notChild: False
    show ?thesis
    proof (cases "RelationRecord.table e = Table.name (heap s ! t)")
      case True
      with notChild have eq1: "collectRows rec t (e # es) s =
          (case tableFor (RelationRecord.name e) s of (relatedTable, s1) \<Rightarrow>
             (case rec relatedTable
                     (push t \<lparr>parent = t, owner = Self, table = relatedTable,
                        cascades = (on_delete e = ''CASCADE'')\<rparr> s1) of
                None \<Rightarrow> None
              | Some s2 \<Rightarrow> collectRows rec t es s2))"
        by simp
      from True notChild have eq2: "expected (Table.name (heap s ! t)) (e # es) =
          (Self, RelationRecord.name e, on_delete e = ''CASCADE'') # expected (Table.name (heap s ! t)) es"
        by simp
      show ?thesis unfolding rowsPost_def eq1 eq2 by (rule step [OF names(2)])
    next
      case False
      with notChild have eq1: "collectRows rec t (e # es) s = collectRows rec t es s"
        and eq2: "expected (Table.name (heap s ! t)) (e # es) = expected (Table.name (heap s ! t)) es"
        by simp_all
      show ?thesis unfolding eq1 rowsPost_def eq2
        using Cons.IH [OF sub Cons.prems(2) Cons.prems(3) Cons.prems(4)]
        unfolding rowsPost_def .
    qed
  qed
qed

lemma collect_spec:
  "collectPre t s \<Longrightarrow>
   (if collected (heap s ! t) then 1 else unregistered rels s + 2) \<le> d \<Longrightarrow>
   \<exists>s'. collectRelations d rels t s = Some s' \<and> collectPost rels s s'"
proof (induction d arbitrary: t s)
  case 0
  then show ?case by (simp split: if_splits)
next
  case (Suc d)
  from Suc.prems(1) have regs: "registry s" and wf: "wfRelations s" and t: "t < length (heap s)"
    and oth: "\<forall>a<length (heap s). a \<noteq> t \<longrightarrow> collected (heap s ! a)"
    and emp: "\<not> collected (heap s ! t) \<longrightarrow> relations (heap s ! t) = []"
    by (simp_all add: collectPre_def)
  show ?case
  proof (cases "collected (heap s ! t)")
    case True
    with oth have "\<forall>a<length (heap s). collected (heap s ! a)" by metis
    with regs wf have "collectPost rels s s"
      by (simp add: collectPost_def settled_def extends_refl)
    with True show ?thesis by simp
  next
    case False
    let ?s0 = "setCollected t s"
    from False Suc.prems(2) have d: "unregistered rels s + 1 \<le> d" by simp
    have len0: "length (heap ?s0) = length (heap s)" by (simp add: setCollected_def)
    have at0: "allTables ?s0 = allTables s" and ch0: "checkedTables ?s0 = checkedTables s"
      by (simp_all add: setCollected_def)
    have ht0: "heap ?s0 ! t = (heap s ! t)\<lparr>collected := True\<rparr>"
      using t by (simp add: setCollected_def)
    have ho0: "heap ?s0 ! a = heap s ! a" if "a \<noteq> t" for a
      using that by (simp add: setCollected_def)
    have nm0: "Table.name (heap ?s0 ! a) = Table.name (heap s ! a)" for a
      by (cases "a = t") (simp_all add: ht0 ho0)
    have rl0: "relations (heap ?s0 ! a) = relations (heap s ! a)" for a
      by (cases "a = t") (simp_all add: ht0 ho0)
    have cl0: "\<forall>a<length (heap ?s0). collected (heap ?s0 ! a)"
    proof (intro allI impI)
      fix a assume "a < length (heap ?s0)"
      with oth show "collected (heap ?s0 ! a)" by (cases "a = t") (simp_all add: ht0 ho0 len0)
    qed
    have st0: "settled ?s0"
      using regs wf cl0 by (simp add: settled_def registry_def wfRelations_def len0 at0 nm0 rl0)
    have u0: "unregistered rels ?s0 = unregistered rels s" by (simp add: unregistered_def at0)
    have "\<exists>s'. collectRows (collectRelations d rels) t rels ?s0 = Some s' \<and> rowsPost rels t rels ?s0 s'"
    proof (rule rows_spec [where d = d])
      show "\<exists>s'. collectRelations d rels u si = Some s' \<and> collectPost rels si s'"
        if "collectPre u si" "\<not> collected (heap si ! u)" "unregistered rels si + 2 \<le> d" for u si
        using Suc.IH [of u si] that by simp
      show "collectRelations d rels u si = Some si" if "collected (heap si ! u)" for u si
        using that d by (intro collect_collected) simp_all
    qed (use st0 t d in \<open>simp_all add: len0 u0\<close>)
    then obtain s1 where run1: "collectRows (collectRelations d rels) t rels ?s0 = Some s1"
      and rp: "rowsPost rels t rels ?s0 s1" by blast
    from rp obtain new where st1: "settled s1" and ex1: "extends rels ?s0 s1"
      and o1: "\<forall>a<length (heap ?s0). a \<noteq> t \<longrightarrow> heap s1 ! a = heap ?s0 ! a"
      and t1: "heap s1 ! t = (heap ?s0 ! t)\<lparr>relations := relations (heap ?s0 ! t) @ new\<rparr>"
      and v1: "map (view (heap s1)) new = expected (Table.name (heap ?s0 ! t)) rels"
      and n1: "\<forall>a. length (heap ?s0) \<le> a \<and> a < length (heap s1) \<longrightarrow> full rels (heap s1) a"
      unfolding rowsPost_def by blast
    from ex1 have len1: "length (heap s) \<le> length (heap s1)" by (simp add: extends_def len0)
    from st1 have wf1: "wfRelations s1" and cl1: "\<forall>a<length (heap s1). collected (heap s1 ! a)"
      by (simp_all add: settled_def)
    have run2: "collectRelated (collectRelations d rels) (relations (heap s1 ! t)) s1 = Some s1"
    proof (rule related_noop)
      fix u assume "u \<in> TableRelation.table ` set (relations (heap s1 ! t))"
      then obtain r where r: "r \<in> set (relations (heap s1 ! t))" "u = TableRelation.table r"
        by auto
      from t len1 have "t < length (heap s1)" by simp
      with wf1 r have "u < length (heap s1)" by (simp add: wfRelations_def)
      with cl1 have "collected (heap s1 ! u)" by simp
      then show "collectRelations d rels u s1 = Some s1"
        using d by (intro collect_collected) simp_all
    qed
    have ex: "extends rels s s1"
      using ex1 unfolding extends_def by (simp add: len0 nm0 ch0 u0)
    have keep: "\<forall>a<length (heap s). collected (heap s ! a) \<longrightarrow> heap s1 ! a = heap s ! a"
      using o1 False ho0 by (auto simp: len0)
    have ft: "full rels (heap s1) t"
      using cl1 t len1 t1 v1 emp False by (simp add: full_def rl0 nm0 ht0)
    have fl: "\<forall>a<length (heap s1). (a < length (heap s) \<longrightarrow> \<not> collected (heap s ! a)) \<longrightarrow> full rels (heap s1) a"
    proof (intro allI impI)
      fix a assume a: "a < length (heap s1)" and nc: "a < length (heap s) \<longrightarrow> \<not> collected (heap s ! a)"
      show "full rels (heap s1) a"
      proof (cases "a < length (heap s)")
        case True
        with nc oth have "a = t" by auto
        with ft show ?thesis by simp
      next
        case False
        with a n1 show ?thesis by (simp add: len0)
      qed
    qed
    have "collectPost rels s s1"
      unfolding collectPost_def using st1 ex keep fl by blast
    with False run1 run2 show ?thesis by simp
  qed
qed

section \<open>The search on a well-formed graph\<close>

lemma frame_refl: "frame s s"
  by (simp add: frame_def)

lemma frame_trans: "frame s s1 \<Longrightarrow> frame s1 s2 \<Longrightarrow> frame s s2"
  by (auto simp: frame_def)

lemma findRelations_frame:
  assumes "\<And>u si res s'. rec u si = Some (res, s') \<Longrightarrow> frame si s'"
  shows "findRelations rec rs s = Some (res, s') \<Longrightarrow> frame s s'"
proof (induction rs arbitrary: s)
  case Nil
  then show ?case by (simp add: frame_refl)
next
  case (Cons r rs)
  show ?case
  proof (cases "owner r = Parent")
    case True
    with Cons show ?thesis by simp
  next
    case notParent: False
    show ?thesis
    proof (cases "cascades r")
      case False
      with notParent Cons.prems show ?thesis by (auto simp: frame_refl)
    next
      case True
      from Cons.prems notParent True obtain res1 s1 where r1: "rec (TableRelation.table r) s = Some (res1, s1)"
        by (auto split: option.splits)
      have f1: "frame s s1" using assms r1 by blast
      show ?thesis
      proof (cases res1)
        case None
        with Cons.prems notParent True r1 have "findRelations rec rs s1 = Some (res, s')" by simp
        then have "frame s1 s'" by (rule Cons.IH)
        with f1 show ?thesis by (rule frame_trans)
      next
        case (Some w)
        with Cons.prems notParent True r1 have "s' = s1" by auto
        with f1 show ?thesis by simp
      qed
    qed
  qed
qed

lemma findNonCascading_frame: "findNonCascading d t s = Some (res, s') \<Longrightarrow> frame s s'"
proof (induction d arbitrary: t s res s')
  case 0
  then show ?case by simp
next
  case (Suc d)
  show ?case
  proof (cases "t \<in> checkedTables s")
    case True
    with Suc.prems show ?thesis by (simp add: frame_refl)
  next
    case False
    with Suc.prems have
      "findRelations (findNonCascading d) (relations (heap s ! t))
         (s\<lparr>checkedTables := insert t (checkedTables s)\<rparr>) = Some (res, s')"
      by simp
    then have "frame (s\<lparr>checkedTables := insert t (checkedTables s)\<rparr>) s'"
      by (rule findRelations_frame [rotated]) (rule Suc.IH)
    then show ?thesis by (auto simp: frame_def)
  qed
qed

lemma unvisited_mono: "frame s s' \<Longrightarrow> unvisited s' \<le> unvisited s"
  unfolding unvisited_def frame_def
  by (auto intro!: card_mono)

lemma findRelations_spec:
  assumes rec: "\<And>u si. u < length H \<Longrightarrow> heap si = H \<Longrightarrow> unvisited si < d \<Longrightarrow>
                  \<exists>res s'. rec u si = Some (res, s') \<and> searchPost u si res s'"
    and wf: "wfHeap H" and t: "t < length H"
  shows "set rs \<subseteq> set (relations (H ! t)) \<Longrightarrow> heap si = H \<Longrightarrow> unvisited si < d \<Longrightarrow>
    \<exists>res s'. findRelations rec rs si = Some (res, s') \<and> frame si s' \<and>
      (case res of
         None \<Rightarrow> closedUnder H (checkedTables s' - checkedTables si) (checkedTables s') \<and>
                 (\<forall>r\<in>set rs. owner r = Self \<longrightarrow> cascades r \<and> TableRelation.table r \<in> checkedTables s')
       | Some w \<Rightarrow> isWitness H t w)"
proof (induction rs arbitrary: si)
  case Nil
  then show ?case by (simp add: frame_refl closedUnder_def)
next
  case (Cons r rs)
  from Cons.prems(1) have rin: "r \<in> set (relations (H ! t))" and sub: "set rs \<subseteq> set (relations (H ! t))"
    by auto
  from wf t rin have pr: "parent r = t" and tr: "TableRelation.table r < length H"
    by (auto simp: wfHeap_def)
  show ?case
  proof (cases "owner r = Parent")
    case True
    from Cons.IH [OF sub Cons.prems(2) Cons.prems(3)] obtain res s' where
      "findRelations rec rs si = Some (res, s')" "frame si s'"
      "case res of
         None \<Rightarrow> closedUnder H (checkedTables s' - checkedTables si) (checkedTables s') \<and>
                 (\<forall>r\<in>set rs. owner r = Self \<longrightarrow> cascades r \<and> TableRelation.table r \<in> checkedTables s')
       | Some w \<Rightarrow> isWitness H t w"
      by blast
    with True show ?thesis by (auto split: option.splits)
  next
    case notParent: False
    then have self: "owner r = Self" by (cases "owner r") auto
    show ?thesis
    proof (cases "cascades r")
      case False
      have "isWitness H t \<lparr>found = r, relationChain = [Table.name (H ! parent r), Table.name (H ! TableRelation.table r)]\<rparr>"
        unfolding isWitness_def using rin pr self False
        by (intro exI [of _ "[]"]) simp
      with notParent False Cons.prems(2) show ?thesis by (simp add: frame_refl)
    next
      case True
      from rec [OF tr Cons.prems(2) Cons.prems(3)] obtain res1 s1 where
        r1: "rec (TableRelation.table r) si = Some (res1, s1)" and p1: "searchPost (TableRelation.table r) si res1 s1"
        by blast
      from p1 have f1: "frame si s1" and c1: "TableRelation.table r \<in> checkedTables s1"
        by (auto simp: searchPost_def)
      from f1 Cons.prems(2) have h1: "heap s1 = H" by (simp add: frame_def)
      from f1 Cons.prems(3) unvisited_mono [OF f1] have u1: "unvisited s1 < d" by simp
      show ?thesis
      proof (cases res1)
        case None
        from p1 None Cons.prems(2) have cl1: "closedUnder H (checkedTables s1 - checkedTables si) (checkedTables s1)"
          by (simp add: searchPost_def)
        from Cons.IH [OF sub h1 u1] obtain res2 s2 where
          r2: "findRelations rec rs s1 = Some (res2, s2)" and f2: "frame s1 s2" and
          p2: "case res2 of
             None \<Rightarrow> closedUnder H (checkedTables s2 - checkedTables s1) (checkedTables s2) \<and>
                 (\<forall>r\<in>set rs. owner r = Self \<longrightarrow> cascades r \<and> TableRelation.table r \<in> checkedTables s2)
           | Some w \<Rightarrow> isWitness H t w"
          by blast
        from notParent True r1 None r2 have run: "findRelations rec (r # rs) si = Some (res2, s2)"
          by simp
        have f: "frame si s2" using f1 f2 by (rule frame_trans)
        from f2 have sub12: "checkedTables s1 \<subseteq> checkedTables s2" by (simp add: frame_def)
        have post: "case res2 of
             None \<Rightarrow> closedUnder H (checkedTables s2 - checkedTables si) (checkedTables s2) \<and>
                 (\<forall>r\<in>set (r # rs). owner r = Self \<longrightarrow> cascades r \<and> TableRelation.table r \<in> checkedTables s2)
           | Some w \<Rightarrow> isWitness H t w"
        proof (cases res2)
          case None
          with p2 have cl2: "closedUnder H (checkedTables s2 - checkedTables s1) (checkedTables s2)"
            and all2: "\<forall>r\<in>set rs. owner r = Self \<longrightarrow> cascades r \<and> TableRelation.table r \<in> checkedTables s2"
            by simp_all
          have "closedUnder H (checkedTables s2 - checkedTables si) (checkedTables s2)"
            unfolding closedUnder_def
          proof (intro ballI impI)
            fix a r' assume a: "a \<in> checkedTables s2 - checkedTables si"
              and r': "r' \<in> set (relations (H ! a))" and o: "owner r' = Self"
            show "cascades r' \<and> TableRelation.table r' \<in> checkedTables s2"
            proof (cases "a \<in> checkedTables s1")
              case True
              with a cl1 r' o sub12 show ?thesis by (auto simp: closedUnder_def)
            next
              case False
              with a cl2 r' o show ?thesis by (auto simp: closedUnder_def)
            qed
          qed
          with None all2 True c1 sub12 show ?thesis by auto
        next
          case (Some w)
          with p2 show ?thesis by simp
        qed
        from run f post show ?thesis by blast
      next
        case (Some w1)
        from p1 Some Cons.prems(2) have "isWitness H (TableRelation.table r) w1"
          by (simp add: searchPost_def)
        then obtain p where p: "cpath H (TableRelation.table r) p"
          "parent (found w1) = last (TableRelation.table r # p)"
          "found w1 \<in> set (relations (H ! last (TableRelation.table r # p)))"
          "owner (found w1) = Self" "\<not> cascades (found w1)"
          "relationChain w1 = map (\<lambda>a. Table.name (H ! a)) (TableRelation.table r # p)
               @ [Table.name (H ! TableRelation.table (found w1))]"
          unfolding isWitness_def by blast
        have lk: "linked H t (TableRelation.table r)"
          unfolding linked_def using rin self True by blast
        have "isWitness H t (w1\<lparr>relationChain := Table.name (H ! parent r) # relationChain w1\<rparr>)"
          unfolding isWitness_def using p lk pr
          by (intro exI [of _ "TableRelation.table r # p"]) simp
        with notParent True r1 Some f1 h1 show ?thesis by simp
      qed
    qed
  qed
qed

lemma findNonCascading_spec:
  "wfHeap (heap s) \<Longrightarrow> t < length (heap s) \<Longrightarrow> unvisited s < d \<Longrightarrow>
     \<exists>res s'. findNonCascading d t s = Some (res, s') \<and> searchPost t s res s'"
proof (induction d arbitrary: t s)
  case 0
  then show ?case by simp
next
  case (Suc d)
  show ?case
  proof (cases "t \<in> checkedTables s")
    case True
    then show ?thesis by (simp add: searchPost_def frame_refl closedUnder_def)
  next
    case False
    let ?s0 = "s\<lparr>checkedTables := insert t (checkedTables s)\<rparr>"
    have "{..<length (heap s)} - checkedTables ?s0 \<subset> {..<length (heap s)} - checkedTables s"
      using False Suc.prems(2) by auto
    then have "unvisited ?s0 < unvisited s"
      unfolding unvisited_def by (simp add: psubset_card_mono)
    with Suc.prems(3) have u0: "unvisited ?s0 < d" by simp
    have "\<exists>res s'. findRelations (findNonCascading d) (relations (heap s ! t)) ?s0 = Some (res, s') \<and>
        frame ?s0 s' \<and>
        (case res of
           None \<Rightarrow> closedUnder (heap s) (checkedTables s' - checkedTables ?s0) (checkedTables s') \<and>
                 (\<forall>r\<in>set (relations (heap s ! t)). owner r = Self \<longrightarrow> cascades r \<and> TableRelation.table r \<in> checkedTables s')
         | Some w \<Rightarrow> isWitness (heap s) t w)"
    proof (rule findRelations_spec [where d = d and H = "heap s"])
      show "\<exists>res s'. findNonCascading d u si = Some (res, s') \<and> searchPost u si res s'"
        if "u < length (heap s)" "heap si = heap s" "unvisited si < d" for u si
        using Suc.IH [of si u] Suc.prems(1) that by simp
    qed (use Suc.prems u0 in simp_all)
    then obtain res s' where run: "findRelations (findNonCascading d) (relations (heap s ! t)) ?s0 = Some (res, s')"
      and f: "frame ?s0 s'"
      and post: "case res of
         None \<Rightarrow> closedUnder (heap s) (checkedTables s' - checkedTables ?s0) (checkedTables s') \<and>
                 (\<forall>r\<in>set (relations (heap s ! t)). owner r = Self \<longrightarrow> cascades r \<and> TableRelation.table r \<in> checkedTables s')
       | Some w \<Rightarrow> isWitness (heap s) t w"
      by auto
    from f have f': "frame s s'" and tin: "t \<in> checkedTables s'" by (auto simp: frame_def)
    have "case res of
        None \<Rightarrow> closedUnder (heap s) (checkedTables s' - checkedTables s) (checkedTables s')
      | Some w \<Rightarrow> isWitness (heap s) t w"
    proof (cases res)
      case None
      with post have cl: "closedUnder (heap s) (checkedTables s' - checkedTables ?s0) (checkedTables s')"
        and all: "\<forall>r\<in>set (relations (heap s ! t)). owner r = Self \<longrightarrow> cascades r \<and> TableRelation.table r \<in> checkedTables s'"
        by simp_all
      have "closedUnder (heap s) (checkedTables s' - checkedTables s) (checkedTables s')"
        unfolding closedUnder_def
      proof (intro ballI impI)
        fix a r assume a: "a \<in> checkedTables s' - checkedTables s"
          and r: "r \<in> set (relations (heap s ! a))" and o: "owner r = Self"
        show "cascades r \<and> TableRelation.table r \<in> checkedTables s'"
        proof (cases "a = t")
          case True
          with all r o show ?thesis by simp
        next
          case False
          with a cl r o show ?thesis by (auto simp: closedUnder_def)
        qed
      qed
      with None show ?thesis by simp
    next
      case (Some w)
      with post show ?thesis by simp
    qed
    with run f' tin False show ?thesis by (simp add: searchPost_def)
  qed
qed

section \<open>Depth bounds, and the search on the built graph\<close>

subsection \<open>A larger depth bound gives the same result\<close>

lemma collectRows_mono:
  assumes "\<And>u si s'. rec u si = Some s' \<Longrightarrow> rec' u si = Some s'"
  shows "collectRows rec t es s = Some s' \<Longrightarrow> collectRows rec' t es s = Some s'"
proof (induction es arbitrary: s)
  case Nil
  then show ?case by simp
next
  case (Cons e es)
  show ?case
  proof (cases "RelationRecord.name e = Table.name (heap s ! t)")
    case True
    obtain rt s1 where tf: "tableFor (RelationRecord.table e) s = (rt, s1)"
      by (cases "tableFor (RelationRecord.table e) s")
    from Cons.prems True tf obtain s2 where
      a: "rec rt (push t \<lparr>parent = t, owner = Parent, table = rt, cascades = (on_delete e = ''CASCADE'')\<rparr> s1) = Some s2"
      and b: "collectRows rec t es s2 = Some s'"
      by (auto split: option.splits)
    from a have "rec' rt (push t \<lparr>parent = t, owner = Parent, table = rt, cascades = (on_delete e = ''CASCADE'')\<rparr> s1) = Some s2"
      by (rule assms)
    with Cons.IH [OF b] True tf show ?thesis by simp
  next
    case notChild: False
    show ?thesis
    proof (cases "RelationRecord.table e = Table.name (heap s ! t)")
      case True
      obtain rt s1 where tf: "tableFor (RelationRecord.name e) s = (rt, s1)"
        by (cases "tableFor (RelationRecord.name e) s")
      from Cons.prems True notChild tf obtain s2 where
        a: "rec rt (push t \<lparr>parent = t, owner = Self, table = rt, cascades = (on_delete e = ''CASCADE'')\<rparr> s1) = Some s2"
        and b: "collectRows rec t es s2 = Some s'"
        by (auto split: option.splits)
      from a have "rec' rt (push t \<lparr>parent = t, owner = Self, table = rt, cascades = (on_delete e = ''CASCADE'')\<rparr> s1) = Some s2"
        by (rule assms)
      with Cons.IH [OF b] True notChild tf show ?thesis by simp
    next
      case False
      with notChild Cons show ?thesis by simp
    qed
  qed
qed

lemma collectRelated_mono:
  assumes "\<And>u si s'. rec u si = Some s' \<Longrightarrow> rec' u si = Some s'"
  shows "collectRelated rec rs s = Some s' \<Longrightarrow> collectRelated rec' rs s = Some s'"
proof (induction rs arbitrary: s)
  case Nil
  then show ?case by simp
next
  case (Cons r rs)
  from Cons.prems obtain s1 where a: "rec (TableRelation.table r) s = Some s1"
    and b: "collectRelated rec rs s1 = Some s'"
    by (auto split: option.splits)
  from a have "rec' (TableRelation.table r) s = Some s1" by (rule assms)
  with Cons.IH [OF b] show ?case by simp
qed

lemma collectRelations_Suc:
  "collectRelations d rels t s = Some s' \<Longrightarrow> collectRelations (Suc d) rels t s = Some s'"
proof (induction d arbitrary: t s s')
  case 0
  then show ?case by simp
next
  case (Suc d)
  show ?case
  proof (cases "collected (heap s ! t)")
    case True
    with Suc.prems show ?thesis by simp
  next
    case False
    with Suc.prems obtain s1 where
      a: "collectRows (collectRelations d rels) t rels (setCollected t s) = Some s1"
      and b: "collectRelated (collectRelations d rels) (relations (heap s1 ! t)) s1 = Some s'"
      by (auto split: option.splits)
    from a have a': "collectRows (collectRelations (Suc d) rels) t rels (setCollected t s) = Some s1"
      by (rule collectRows_mono [rotated]) (rule Suc.IH)
    from b have b': "collectRelated (collectRelations (Suc d) rels) (relations (heap s1 ! t)) s1 = Some s'"
      by (rule collectRelated_mono [rotated]) (rule Suc.IH)
    from False a' b' show ?thesis by (simp del: collectRelations.simps(2) add: collectRelations.simps(2) [of "Suc d"])
  qed
qed

lemma collectRelations_mono:
  "d \<le> d' \<Longrightarrow> collectRelations d rels t s = Some s' \<Longrightarrow> collectRelations d' rels t s = Some s'"
  by (induction rule: dec_induct) (simp_all add: collectRelations_Suc del: collectRelations.simps)

lemma findRelations_mono:
  assumes "\<And>u si x. rec u si = Some x \<Longrightarrow> rec' u si = Some x"
  shows "findRelations rec rs s = Some x \<Longrightarrow> findRelations rec' rs s = Some x"
proof (induction rs arbitrary: s)
  case Nil
  then show ?case by simp
next
  case (Cons r rs)
  show ?case
  proof (cases "owner r = Parent \<or> \<not> cascades r")
    case True
    with Cons show ?thesis by auto
  next
    case False
    with Cons.prems obtain res1 s1 where a: "rec (TableRelation.table r) s = Some (res1, s1)"
      by (auto split: option.splits)
    then have a': "rec' (TableRelation.table r) s = Some (res1, s1)" by (rule assms)
    show ?thesis
    proof (cases res1)
      case None
      with Cons.prems False a have "findRelations rec rs s1 = Some x" by simp
      then have "findRelations rec' rs s1 = Some x" by (rule Cons.IH)
      with False a' None show ?thesis by simp
    next
      case (Some w)
      with Cons.prems False a a' show ?thesis by simp
    qed
  qed
qed

lemma findNonCascading_Suc:
  "findNonCascading d t s = Some x \<Longrightarrow> findNonCascading (Suc d) t s = Some x"
proof (induction d arbitrary: t s x)
  case 0
  then show ?case by simp
next
  case (Suc d)
  show ?case
  proof (cases "t \<in> checkedTables s")
    case True
    with Suc.prems show ?thesis by simp
  next
    case False
    with Suc.prems have "findRelations (findNonCascading d) (relations (heap s ! t))
        (s\<lparr>checkedTables := insert t (checkedTables s)\<rparr>) = Some x"
      by simp
    then have "findRelations (findNonCascading (Suc d)) (relations (heap s ! t))
        (s\<lparr>checkedTables := insert t (checkedTables s)\<rparr>) = Some x"
      by (rule findRelations_mono [rotated]) (rule Suc.IH)
    with False show ?thesis by (simp del: findNonCascading.simps(2) add: findNonCascading.simps(2) [of "Suc d"])
  qed
qed

lemma findNonCascading_mono:
  "d \<le> d' \<Longrightarrow> findNonCascading d t s = Some x \<Longrightarrow> findNonCascading d' t s = Some x"
  by (induction rule: dec_induct) (simp_all add: findNonCascading_Suc del: findNonCascading.simps)

lemma canIDelete_mono:
  assumes "d \<le> d'" "canIDelete d rels targetTable = Some x"
  shows "canIDelete d' rels targetTable = Some x"
proof -
  from assms(2) obtain s where b: "build d rels targetTable = Some s"
    and f: "findNonCascading d 0 s = Some x"
    by (auto simp: canIDelete_def split: option.splits)
  from b assms(1) have "build d' rels targetTable = Some s"
    unfolding build_def by (intro collectRelations_mono [of d d'])
  moreover from f assms(1) have "findNonCascading d' 0 s = Some x"
    by (intro findNonCascading_mono [of d d'])
  ultimately show ?thesis by (simp add: canIDelete_def)
qed

subsection \<open>The graph that the build leaves\<close>

lemma card_tableNames: "card (tableNames rels) \<le> 2 * length rels"
proof -
  have "card (tableNames rels) \<le> card (RelationRecord.name ` set rels) + card (RelationRecord.table ` set rels)"
    unfolding tableNames_def by (rule card_Un_le)
  also have "\<dots> \<le> card (set rels) + card (set rels)"
    by (intro add_mono card_image_le) simp_all
  also have "\<dots> \<le> length rels + length rels"
    by (intro add_mono card_length)
  finally show ?thesis by simp
qed

lemma collectPre_initial: "collectPre 0 (initial targetTable)"
  by (auto simp: collectPre_def initial_def registry_def wfRelations_def)

lemma build_total:
  assumes "card (tableNames rels) + 2 \<le> d"
  shows "\<exists>s. build d rels targetTable = Some s \<and> built rels targetTable s"
proof -
  let ?i = "initial targetTable"
  have u: "unregistered rels ?i = card (tableNames rels)"
    by (simp add: unregistered_def initial_def)
  have nc: "\<not> collected (heap ?i ! 0)" by (simp add: initial_def)
  from collect_spec [OF collectPre_initial, of targetTable rels d] nc u assms
  obtain s where run: "collectRelations d rels 0 ?i = Some s" and post: "collectPost rels ?i s"
    by auto
  from post have st: "settled s" and ex: "extends rels ?i s"
    and fl: "\<forall>a<length (heap s). (a < length (heap ?i) \<longrightarrow> \<not> collected (heap ?i ! a)) \<longrightarrow> full rels (heap s) a"
    by (simp_all add: collectPost_def)
  have "\<forall>a<length (heap s). full rels (heap s) a"
    using fl by (simp add: initial_def)
  moreover from ex u have "Table.name (heap s ! 0) = targetTable" "checkedTables s = {}"
    "length (heap s) \<le> card (tableNames rels) + 1"
    by (simp_all add: extends_def initial_def)
  ultimately have "built rels targetTable s" using st by (simp add: built_def)
  with run show ?thesis by (simp add: build_def)
qed

lemma build_built:
  assumes "build d rels targetTable = Some s"
  shows "built rels targetTable s"
proof -
  let ?d = "max d (card (tableNames rels) + 2)"
  from assms have "build ?d rels targetTable = Some s"
    unfolding build_def by (intro collectRelations_mono [of d ?d]) simp_all
  moreover from build_total [of rels ?d targetTable]
  obtain s' where "build ?d rels targetTable = Some s'" "built rels targetTable s'" by auto
  ultimately show ?thesis by simp
qed


subsection \<open>Relations of the graph and rows of the query\<close>

lemma expected_Self:
  "(Self, c, k) \<in> set (expected n rels) \<longleftrightarrow>
     (\<exists>e\<in>set rels. RelationRecord.table e = n \<and> RelationRecord.name e = c \<and>
        RelationRecord.name e \<noteq> n \<and> k = (on_delete e = ''CASCADE''))"
  by (induction rels) auto

lemma built_wfHeap: "built rels targetTable s \<Longrightarrow> wfHeap (heap s)"
  by (auto simp: built_def settled_def wfRelations_def wfHeap_def)

lemma full_relation_row:
  assumes "full rels H a" "r \<in> set (relations (H ! a))" "owner r = Self"
  shows "\<exists>e\<in>set rels. RelationRecord.table e = Table.name (H ! a) \<and>
           RelationRecord.name e = Table.name (H ! TableRelation.table r) \<and>
           RelationRecord.name e \<noteq> RelationRecord.table e \<and>
           cascades r = (on_delete e = ''CASCADE'')"
proof -
  from assms(2) have "view H r \<in> set (map (view H) (relations (H ! a)))" by simp
  with assms(1) have "view H r \<in> set (expected (Table.name (H ! a)) rels)"
    by (simp add: full_def)
  with assms(3) have "(Self, Table.name (H ! TableRelation.table r), cascades r)
      \<in> set (expected (Table.name (H ! a)) rels)"
    by (simp add: view_def)
  then show ?thesis unfolding expected_Self by auto
qed

lemma full_row_relation:
  assumes "full rels H a" "e \<in> set rels" "RelationRecord.table e = Table.name (H ! a)"
    "RelationRecord.name e \<noteq> RelationRecord.table e"
  shows "\<exists>r\<in>set (relations (H ! a)). owner r = Self \<and>
           Table.name (H ! TableRelation.table r) = RelationRecord.name e \<and>
           cascades r = (on_delete e = ''CASCADE'')"
proof -
  from assms(2,3,4) have "(Self, RelationRecord.name e, on_delete e = ''CASCADE'')
      \<in> set (expected (Table.name (H ! a)) rels)"
    unfolding expected_Self by auto
  with assms(1) have "(Self, RelationRecord.name e, on_delete e = ''CASCADE'')
      \<in> set (map (view H) (relations (H ! a)))"
    by (simp add: full_def)
  then obtain r where "r \<in> set (relations (H ! a))"
    "view H r = (Self, RelationRecord.name e, on_delete e = ''CASCADE'')"
    by auto
  then show ?thesis by (auto simp: view_def)
qed

lemma cpath_valid:
  assumes "wfHeap H"
  shows "a < length H \<Longrightarrow> cpath H a p \<Longrightarrow> last (a # p) < length H"
proof (induction p arbitrary: a)
  case Nil
  then show ?case by simp
next
  case (Cons b p)
  from Cons.prems(2) have lk: "linked H a b" and rest: "cpath H b p" by simp_all
  from lk assms Cons.prems(1) have "b < length H" by (auto simp: linked_def wfHeap_def)
  from Cons.IH [OF this rest] show ?case by simp
qed

lemma cpath_reach:
  assumes wf: "wfHeap H" and fl: "\<forall>a<length H. full rels H a"
  shows "a < length H \<Longrightarrow> cpath H a p \<Longrightarrow> reach rels targetTable (Table.name (H ! a)) \<Longrightarrow>
         reach rels targetTable (Table.name (H ! last (a # p)))"
proof (induction p arbitrary: a)
  case Nil
  then show ?case by simp
next
  case (Cons b p)
  from Cons.prems(2) have lk: "linked H a b" and rest: "cpath H b p" by simp_all
  from lk obtain r where r: "r \<in> set (relations (H ! a))" "owner r = Self" "TableRelation.table r = b"
    by (auto simp: linked_def)
  from r wf Cons.prems(1) have b: "b < length H" by (auto simp: wfHeap_def)
  from fl Cons.prems(1) have "full rels H a" by simp
  from full_relation_row [OF this r(1) r(2)] r(3) obtain e where
    e: "e \<in> set rels" "RelationRecord.table e = Table.name (H ! a)"
       "RelationRecord.name e = Table.name (H ! b)"
    by auto
  from Cons.prems(3) e(1) e(2) have "reach rels targetTable (RelationRecord.name e)"
    by (intro reach_child [where p = "Table.name (H ! a)"]) simp_all
  with e(3) have "reach rels targetTable (Table.name (H ! b))" by simp
  from Cons.IH [OF b rest this] show ?case by simp
qed

lemma closed_reach:
  assumes fl: "\<forall>a<length H. full rels H a" and wf: "wfHeap H"
    and cl: "closedUnder H C C" and root: "0 \<in> C" "0 < length H"
  shows "reach rels (Table.name (H ! 0)) n \<Longrightarrow> \<exists>a\<in>C. a < length H \<and> Table.name (H ! a) = n"
proof (induction rule: reach.induct)
  case reach_target
  from root show ?case by blast
next
  case (reach_child p e)
  from reach_child.IH obtain a where a: "a \<in> C" "a < length H" "Table.name (H ! a) = p"
    by blast
  show ?case
  proof (cases "RelationRecord.name e = RelationRecord.table e")
    case True
    with a reach_child.hyps(3) show ?thesis by auto
  next
    case False
    from fl a(2) have "full rels H a" by simp
    from full_row_relation [OF this reach_child.hyps(2) _ False] a(3) reach_child.hyps(3)
    obtain r where r: "r \<in> set (relations (H ! a))" "owner r = Self"
      "Table.name (H ! TableRelation.table r) = RelationRecord.name e"
      by auto
    from cl a(1) r(1,2) have "TableRelation.table r \<in> C" by (auto simp: closedUnder_def)
    moreover from wf a(2) r(1) have "TableRelation.table r < length H" by (auto simp: wfHeap_def)
    ultimately show ?thesis using r(3) by blast
  qed
qed

lemma chain_end:
  "drop (length (map f (a # p) @ [y]) - 2) (map f (a # p) @ [y]) = [f (last (a # p)), y]"
proof -
  have "a # p = butlast (a # p) @ [last (a # p)]" by (rule append_butlast_last_id [symmetric]) simp
  then have "map f (a # p) = map f (butlast (a # p)) @ [f (last (a # p))]"
    by (metis list.simps(8,9) map_append)
  then show ?thesis by simp
qed

text \<open>The search on the graph the build leaves, in terms of the rows of the query.\<close>

lemma search_built:
  assumes b: "built rels targetTable s" and d: "length (heap s) < d"
  shows "\<exists>res s'. findNonCascading d 0 s = Some (res, s') \<and> heap s' = heap s \<and>
     (case res of
        None \<Rightarrow>
          (\<forall>e\<in>set rels. reach rels targetTable (RelationRecord.table e) \<and>
              RelationRecord.name e \<noteq> RelationRecord.table e \<longrightarrow> on_delete e = ''CASCADE'')
      | Some w \<Rightarrow>
          hd (relationChain w) = targetTable \<and> 2 \<le> length (relationChain w) \<and>
          drop (length (relationChain w) - 2) (relationChain w) =
            [Table.name (heap s ! parent (found w)), Table.name (heap s ! TableRelation.table (found w))] \<and>
          owner (found w) = Self \<and> \<not> cascades (found w) \<and>
          (\<exists>e\<in>set rels. reach rels targetTable (RelationRecord.table e) \<and>
              RelationRecord.name e \<noteq> RelationRecord.table e \<and> on_delete e \<noteq> ''CASCADE'' \<and>
              RelationRecord.table e = Table.name (heap s ! parent (found w)) \<and>
              RelationRecord.name e = Table.name (heap s ! TableRelation.table (found w))))"
proof -
  let ?H = "heap s"
  from b have wf: "wfHeap ?H" by (rule built_wfHeap)
  from b have fl: "\<forall>a<length ?H. full rels ?H a" and nm: "Table.name (?H ! 0) = targetTable"
    and ch: "checkedTables s = {}" and pos: "0 < length ?H"
    by (simp_all add: built_def settled_def registry_def)
  have "unvisited s \<le> card {..<length ?H}"
    unfolding unvisited_def by (intro card_mono) auto
  with d have u: "unvisited s < d" by simp
  from findNonCascading_spec [OF wf pos u] obtain res s' where
    run: "findNonCascading d 0 s = Some (res, s')" and post: "searchPost 0 s res s'"
    by blast
  from post have fr: "frame s s'" and root: "0 \<in> checkedTables s'"
    by (simp_all add: searchPost_def)
  from fr have hp: "heap s' = ?H" by (simp add: frame_def)
  have "case res of
        None \<Rightarrow>
          (\<forall>e\<in>set rels. reach rels targetTable (RelationRecord.table e) \<and>
              RelationRecord.name e \<noteq> RelationRecord.table e \<longrightarrow> on_delete e = ''CASCADE'')
      | Some w \<Rightarrow>
          hd (relationChain w) = targetTable \<and> 2 \<le> length (relationChain w) \<and>
          drop (length (relationChain w) - 2) (relationChain w) =
            [Table.name (?H ! parent (found w)), Table.name (?H ! TableRelation.table (found w))] \<and>
          owner (found w) = Self \<and> \<not> cascades (found w) \<and>
          (\<exists>e\<in>set rels. reach rels targetTable (RelationRecord.table e) \<and>
              RelationRecord.name e \<noteq> RelationRecord.table e \<and> on_delete e \<noteq> ''CASCADE'' \<and>
              RelationRecord.table e = Table.name (?H ! parent (found w)) \<and>
              RelationRecord.name e = Table.name (?H ! TableRelation.table (found w)))"
  proof (cases res)
    case None
    with post ch have cl: "closedUnder ?H (checkedTables s') (checkedTables s')"
      by (simp add: searchPost_def)
    have "on_delete e = ''CASCADE''"
      if e: "e \<in> set rels" "reach rels targetTable (RelationRecord.table e)"
        "RelationRecord.name e \<noteq> RelationRecord.table e" for e
    proof -
      from closed_reach [OF fl wf cl root pos, of "RelationRecord.table e"] e(2) nm
      obtain a where a: "a \<in> checkedTables s'" "a < length ?H"
        "Table.name (?H ! a) = RelationRecord.table e"
        by auto
      from fl a(2) have "full rels ?H a" by simp
      from full_row_relation [OF this e(1) _ e(3)] a(3)
      obtain r where r: "r \<in> set (relations (?H ! a))" "owner r = Self"
        "cascades r = (on_delete e = ''CASCADE'')"
        by auto
      from cl a(1) r(1,2) have "cascades r" by (auto simp: closedUnder_def)
      with r(3) show ?thesis by simp
    qed
    with None show ?thesis by auto
  next
    case (Some w)
    with post have "isWitness ?H 0 w" by (simp add: searchPost_def)
    then obtain p where p: "cpath ?H 0 p" "parent (found w) = last (0 # p)"
      "found w \<in> set (relations (?H ! last (0 # p)))"
      "owner (found w) = Self" "\<not> cascades (found w)"
      "relationChain w = map (\<lambda>a. Table.name (?H ! a)) (0 # p)
         @ [Table.name (?H ! TableRelation.table (found w))]"
      unfolding isWitness_def by blast
    from p(6) nm have c1: "hd (relationChain w) = targetTable" by simp
    from p(6) have c2: "2 \<le> length (relationChain w)" by simp
    have c3: "drop (length (relationChain w) - 2) (relationChain w) =
            [Table.name (?H ! parent (found w)), Table.name (?H ! TableRelation.table (found w))]"
      unfolding p(6) p(2) by (rule chain_end)
    from cpath_valid [OF wf pos p(1)] have lv: "last (0 # p) < length ?H" .
    have "reach rels targetTable (Table.name (?H ! 0))"
      unfolding nm by (rule reach_target)
    from cpath_reach [OF wf fl pos p(1) this]
    have rl: "reach rels targetTable (Table.name (?H ! last (0 # p)))" .
    from fl lv have "full rels ?H (last (0 # p))" by simp
    from full_relation_row [OF this p(3) p(4)] p(5) obtain e where
      e: "e \<in> set rels" "RelationRecord.table e = Table.name (?H ! last (0 # p))"
        "RelationRecord.name e = Table.name (?H ! TableRelation.table (found w))"
        "RelationRecord.name e \<noteq> RelationRecord.table e" "on_delete e \<noteq> ''CASCADE''"
      by auto
    from rl e(2) have "reach rels targetTable (RelationRecord.table e)" by simp
    with e p(2) have "\<exists>e\<in>set rels. reach rels targetTable (RelationRecord.table e) \<and>
              RelationRecord.name e \<noteq> RelationRecord.table e \<and> on_delete e \<noteq> ''CASCADE'' \<and>
              RelationRecord.table e = Table.name (?H ! parent (found w)) \<and>
              RelationRecord.name e = Table.name (?H ! TableRelation.table (found w))"
      by (intro bexI [of _ e]) simp_all
    with Some c1 c2 c3 p(4,5) show ?thesis by simp
  qed
  with run hp show ?thesis by blast
qed

section \<open>The whole program\<close>

lemmas run_simps =
  canIDelete_def build_def initial_def tableFor_def push_def setCollected_def chainOf_def row_def
  searchTwice_def

lemma chainOf_mono:
  assumes "d \<le> d'" "chainOf (canIDelete d rels targetTable) = Some r"
  shows "chainOf (canIDelete d' rels targetTable) = Some r"
proof -
  from assms(2) obtain x where "canIDelete d rels targetTable = Some x"
    by (auto simp: chainOf_def)
  with assms show ?thesis using canIDelete_mono [of d d' rels targetTable x]
    by (simp add: chainOf_def)
qed

lemma canIDelete_total:
  assumes d: "2 * length rels + 2 \<le> depth"
  shows "\<exists>s res s'. build depth rels targetTable = Some s \<and> built rels targetTable s \<and>
     findNonCascading depth 0 s = Some (res, s') \<and> heap s' = heap s \<and>
     (case res of
        None \<Rightarrow>
          (\<forall>e\<in>set rels. reach rels targetTable (RelationRecord.table e) \<and>
              RelationRecord.name e \<noteq> RelationRecord.table e \<longrightarrow> on_delete e = ''CASCADE'')
      | Some w \<Rightarrow>
          hd (relationChain w) = targetTable \<and> 2 \<le> length (relationChain w) \<and>
          drop (length (relationChain w) - 2) (relationChain w) =
            [Table.name (heap s ! parent (found w)), Table.name (heap s ! TableRelation.table (found w))] \<and>
          owner (found w) = Self \<and> \<not> cascades (found w) \<and>
          (\<exists>e\<in>set rels. reach rels targetTable (RelationRecord.table e) \<and>
              RelationRecord.name e \<noteq> RelationRecord.table e \<and> on_delete e \<noteq> ''CASCADE'' \<and>
              RelationRecord.table e = Table.name (heap s ! parent (found w)) \<and>
              RelationRecord.name e = Table.name (heap s ! TableRelation.table (found w))))"
proof -
  from d card_tableNames [of rels] have d1: "card (tableNames rels) + 2 \<le> depth" by simp
  from build_total [OF d1, of targetTable] obtain s where
    b: "build depth rels targetTable = Some s" and bt: "built rels targetTable s"
    by blast
  from bt d1 have "length (heap s) < depth" by (simp add: built_def)
  from search_built [OF bt this] b bt show ?thesis by blast
qed

lemma build_ordersGraph:
  "build 4 [row ''orders'' ''customers'' ''CASCADE''] ''customers'' = Some ordersGraph"
  by (simp add: run_simps ordersGraph_def eval_nat_numeral)

lemma expected_concat:
  "expected n rels =
     concat (map (\<lambda>e.
        if RelationRecord.name e = n then
          [(Parent, RelationRecord.table e, on_delete e = ''CASCADE'')]
        else if RelationRecord.table e = n then
          [(Self, RelationRecord.name e, on_delete e = ''CASCADE'')]
        else []) rels)"
  by (induction rels) simp_all

lemma findNonCascading_enters:
  "findNonCascading depth t s = Some (res, s') \<Longrightarrow> t \<in> checkedTables s'"
proof (cases depth)
  case 0
  assume "findNonCascading depth t s = Some (res, s')"
  with 0 show ?thesis by simp
next
  case (Suc d)
  assume run: "findNonCascading depth t s = Some (res, s')"
  then have fr: "frame s s'" by (rule findNonCascading_frame)
  show ?thesis
  proof (cases "t \<in> checkedTables s")
    case True
    with fr show ?thesis by (auto simp: frame_def)
  next
    case False
    with run Suc have "findRelations (findNonCascading d) (relations (heap s ! t))
        (s\<lparr>checkedTables := insert t (checkedTables s)\<rparr>) = Some (res, s')"
      by simp
    then have "frame (s\<lparr>checkedTables := insert t (checkedTables s)\<rparr>) s'"
      by (rule findRelations_frame [rotated]) (rule findNonCascading_frame)
    then show ?thesis by (auto simp: frame_def)
  qed
qed

lemma findRelations_null_examined:
  "findRelations (findNonCascading d) rs s = Some (None, s') \<Longrightarrow>
   \<forall>r\<in>set rs. owner r = Self \<longrightarrow> cascades r \<and> TableRelation.table r \<in> checkedTables s'"
proof (induction rs arbitrary: s)
  case Nil
  show ?case by simp
next
  case (Cons r rs)
  show ?case
  proof (cases "owner r")
    case Parent
    with Cons.prems have "findRelations (findNonCascading d) rs s = Some (None, s')" by simp
    from Cons.IH [OF this] Parent show ?thesis by simp
  next
    case Self
    with Cons.prems have c: "cascades r" by (auto split: if_splits)
    with Cons.prems Self obtain s1 where
      a: "findNonCascading d (TableRelation.table r) s = Some (None, s1)"
      and b: "findRelations (findNonCascading d) rs s1 = Some (None, s')"
      by (auto split: option.splits)
    from a have "TableRelation.table r \<in> checkedTables s1" by (rule findNonCascading_enters)
    moreover from b have "frame s1 s'"
      by (rule findRelations_frame [rotated]) (rule findNonCascading_frame)
    ultimately have "TableRelation.table r \<in> checkedTables s'" by (auto simp: frame_def)
    with c Cons.IH [OF b] show ?thesis by simp
  qed
qed

lemma findRelations_filter:
  "findRelations rec rs s = findRelations rec (filter (\<lambda>r. owner r = Self) rs) s"
proof (induction rs arbitrary: s)
  case Nil
  show ?case by simp
next
  case (Cons r rs)
  show ?case
  proof (cases "owner r")
    case Parent
    with Cons show ?thesis by simp
  next
    case Self
    with Cons show ?thesis by (simp split: option.splits prod.splits)
  qed
qed

text \<open>
  Tables that are already in \<open>checkedTables\<close> at the call and that the search would not
  have entered do not change what the search does.
\<close>

lemma build_blockedGraph:
  "build 4 [row ''orders'' ''customers'' ''NO ACTION''] ''customers'' = Some blockedGraph"
  by (simp add: run_simps blockedGraph_def eval_nat_numeral)



section \<open>Properties of the program\<close>

subsection \<open>The worked example\<close>

text \<open>
  Claim C9.  For the rows in which \<open>orders\<close> references \<open>customers\<close> with \<open>CASCADE\<close> and
  \<open>order_items\<close> references \<open>orders\<close> with \<open>NO ACTION\<close>, and the target \<open>customers\<close>,
  building the graph and searching it returns a non-cascading relation whose chain is
  exactly \<open>customers, orders, order_items\<close>.  The calls nest four deep, so every depth
  bound from 4 on gives this result.
\<close>

theorem customers_orders_order_items:
  "4 \<le> depth \<Longrightarrow>
   chainOf (canIDelete depth
      [row ''orders'' ''customers'' ''CASCADE'', row ''order_items'' ''orders'' ''NO ACTION'']
      ''customers'')
   = Some (Some [''customers'', ''orders'', ''order_items''])"
proof -
  assume d: "4 \<le> depth"
  have "chainOf (canIDelete 4
      [row ''orders'' ''customers'' ''CASCADE'', row ''order_items'' ''orders'' ''NO ACTION'']
      ''customers'')
   = Some (Some [''customers'', ''orders'', ''order_items''])"
    by (simp add: run_simps eval_nat_numeral)
  with d show ?thesis by (rule chainOf_mono)
qed

theorem customers_orders_order_items_witness:
  "(4::nat) \<le> 6 \<and>
   chainOf (canIDelete 6
      [row ''orders'' ''customers'' ''CASCADE'', row ''order_items'' ''orders'' ''NO ACTION'']
      ''customers'')
   = Some (Some [''customers'', ''orders'', ''order_items''])"
  using customers_orders_order_items [of 6] by simp

subsection \<open>The search does not touch the tables\<close>

text \<open>
  Claim C10.  A search that returns leaves every table object as it was: the store of
  objects, with each table's name, relations (contents and order) and \<open>collected\<close>
  marker, is the same before and after, and so is the registry.  Only \<open>checkedTables\<close>
  can differ.
\<close>

theorem search_leaves_tables_unchanged:
  "findNonCascading depth t s = Some (res, s') \<Longrightarrow> heap s' = heap s \<and> allTables s' = allTables s"
proof -
  assume "findNonCascading depth t s = Some (res, s')"
  then have "frame s s'" by (rule findNonCascading_frame)
  then show ?thesis by (simp add: frame_def)
qed

theorem search_leaves_tables_unchanged_witness:
  "findNonCascading 3 0 ordersGraph \<noteq> None \<and>
   heap (snd (the (findNonCascading 3 0 ordersGraph))) = heap ordersGraph \<and>
   allTables (snd (the (findNonCascading 3 0 ordersGraph))) = allTables ordersGraph"
proof -
  have "findNonCascading 3 0 ordersGraph \<noteq> None"
    by (simp add: ordersGraph_def eval_nat_numeral)
  then have "findNonCascading 3 0 ordersGraph =
      Some (fst (the (findNonCascading 3 0 ordersGraph)), snd (the (findNonCascading 3 0 ordersGraph)))"
    by auto
  from search_leaves_tables_unchanged [OF this] \<open>findNonCascading 3 0 ordersGraph \<noteq> None\<close>
  show ?thesis by simp
qed

subsection \<open>Termination\<close>

text \<open>
  Claim C8.  For every finite list of rows, cyclic schemas and self-references included,
  the build returns and the search on the graph it leaves returns: the calls never nest
  deeper than twice the number of rows plus two, so every depth bound from there on
  gives a result for both.
\<close>

theorem build_and_search_terminate:
  "2 * length rels + 2 \<le> depth \<Longrightarrow>
   \<exists>s res s'. build depth rels targetTable = Some s \<and> findNonCascading depth 0 s = Some (res, s')"
proof -
  assume "2 * length rels + 2 \<le> depth"
  from canIDelete_total [OF this, of targetTable] show ?thesis by blast
qed

theorem build_and_search_terminate_witness:
  "2 * length [row ''a'' ''b'' ''CASCADE'', row ''b'' ''a'' ''NO ACTION'', row ''a'' ''a'' ''CASCADE''] + 2
     \<le> (8::nat) \<and>
   (\<exists>s res s'.
      build 8 [row ''a'' ''b'' ''CASCADE'', row ''b'' ''a'' ''NO ACTION'', row ''a'' ''a'' ''CASCADE''] ''a''
        = Some s \<and>
      findNonCascading 8 0 s = Some (res, s'))"
  using build_and_search_terminate
    [of "[row ''a'' ''b'' ''CASCADE'', row ''b'' ''a'' ''NO ACTION'', row ''a'' ''a'' ''CASCADE'']" 8 "''a''"]
  by simp

subsection \<open>When the search answers that all relations cascade\<close>

text \<open>
  Claim C2.  If every row in which another table references a table reachable from the
  target has the delete action \<open>CASCADE\<close>, the search returns \<open>null\<close>.  In particular
  two tables that reference each other with \<open>CASCADE\<close> give \<open>null\<close>, and so does a
  target with no rows at all (the witness below).
\<close>

theorem safe_when_reachable_rows_cascade:
  assumes "\<forall>e\<in>set rels. reach rels targetTable (RelationRecord.table e) \<and>
             RelationRecord.name e \<noteq> RelationRecord.table e \<longrightarrow> on_delete e = ''CASCADE''"
    and "2 * length rels + 2 \<le> depth"
  shows "chainOf (canIDelete depth rels targetTable) = Some None"
proof -
  from canIDelete_total [OF assms(2), of targetTable] obtain s res s' where
    b: "build depth rels targetTable = Some s"
    and f: "findNonCascading depth 0 s = Some (res, s')"
    and c: "case res of
        None \<Rightarrow> True
      | Some w \<Rightarrow>
          (\<exists>e\<in>set rels. reach rels targetTable (RelationRecord.table e) \<and>
              RelationRecord.name e \<noteq> RelationRecord.table e \<and> on_delete e \<noteq> ''CASCADE'')"
    by (fastforce split: option.splits)
  have "res = None"
  proof (cases res)
    case (Some w)
    with c assms(1) show ?thesis by auto
  qed simp
  with b f show ?thesis by (simp add: canIDelete_def chainOf_def)
qed

theorem safe_when_reachable_rows_cascade_witness:
  "chainOf (canIDelete 6 [row ''a'' ''b'' ''CASCADE'', row ''b'' ''a'' ''CASCADE''] ''a'') = Some None \<and>
   chainOf (canIDelete 2 [] ''a'') = Some None"
proof -
  have "chainOf (canIDelete 6 [row ''a'' ''b'' ''CASCADE'', row ''b'' ''a'' ''CASCADE''] ''a'') = Some None"
    by (rule safe_when_reachable_rows_cascade) (simp_all add: row_def)
  moreover have "chainOf (canIDelete 2 [] ''a'') = Some None"
    by (rule safe_when_reachable_rows_cascade) simp_all
  ultimately show ?thesis by simp
qed

subsection \<open>When the search reports a relation\<close>

text \<open>
  Claim C1 as stated fails: a table that references itself with \<open>NO ACTION\<close> is a
  non-cascading relation in which the target is the referenced table, and the search
  still returns \<open>null\<close>.
\<close>

theorem self_reference_is_not_reported:
  "reach [row ''employees'' ''employees'' ''NO ACTION''] ''employees''
     (RelationRecord.table (row ''employees'' ''employees'' ''NO ACTION'')) \<and>
   on_delete (row ''employees'' ''employees'' ''NO ACTION'') \<noteq> ''CASCADE'' \<and>
   chainOf (canIDelete 4 [row ''employees'' ''employees'' ''NO ACTION''] ''employees'') = Some None"
proof -
  have "reach [row ''employees'' ''employees'' ''NO ACTION''] ''employees'' ''employees''"
    by (rule reach_target)
  then show ?thesis by (simp add: run_simps eval_nat_numeral)
qed

text \<open>
  Claim C1, amended.  If some row in which one table references a different table does
  not cascade, and the referenced table is reachable from the target, then the search
  returns a relation that does not cascade, with a chain whose first element is the
  target's name and whose last two elements are the names of that relation's referenced
  table and referencing table, in that order; these two names are the two tables of a
  non-cascading row of the schema in which one table references a different table: the
  relation reported is not a self-reference.
\<close>

theorem unsafe_when_reachable_row_blocks:
  assumes "e \<in> set rels" and "reach rels targetTable (RelationRecord.table e)"
    and "RelationRecord.name e \<noteq> RelationRecord.table e" and "on_delete e \<noteq> ''CASCADE''"
    and "2 * length rels + 2 \<le> depth"
  shows "\<exists>w s'. canIDelete depth rels targetTable = Some (Some w, s') \<and>
     hd (relationChain w) = targetTable \<and> 2 \<le> length (relationChain w) \<and>
     drop (length (relationChain w) - 2) (relationChain w) =
       [Table.name (heap s' ! parent (found w)), Table.name (heap s' ! TableRelation.table (found w))] \<and>
     \<not> cascades (found w) \<and>
     (\<exists>b\<in>set rels. on_delete b \<noteq> ''CASCADE'' \<and>
        RelationRecord.name b \<noteq> RelationRecord.table b \<and>
        drop (length (relationChain w) - 2) (relationChain w) =
          [RelationRecord.table b, RelationRecord.name b])"
proof -
  from canIDelete_total [OF assms(5), of targetTable] obtain s res s' where
    b: "build depth rels targetTable = Some s"
    and f: "findNonCascading depth 0 s = Some (res, s')" and h: "heap s' = heap s"
    and c: "case res of
        None \<Rightarrow>
          (\<forall>e\<in>set rels. reach rels targetTable (RelationRecord.table e) \<and>
              RelationRecord.name e \<noteq> RelationRecord.table e \<longrightarrow> on_delete e = ''CASCADE'')
      | Some w \<Rightarrow>
          hd (relationChain w) = targetTable \<and> 2 \<le> length (relationChain w) \<and>
          drop (length (relationChain w) - 2) (relationChain w) =
            [Table.name (heap s ! parent (found w)), Table.name (heap s ! TableRelation.table (found w))] \<and>
          owner (found w) = Self \<and> \<not> cascades (found w) \<and>
          (\<exists>e\<in>set rels. reach rels targetTable (RelationRecord.table e) \<and>
              RelationRecord.name e \<noteq> RelationRecord.table e \<and> on_delete e \<noteq> ''CASCADE'' \<and>
              RelationRecord.table e = Table.name (heap s ! parent (found w)) \<and>
              RelationRecord.name e = Table.name (heap s ! TableRelation.table (found w)))"
    by blast
  show ?thesis
  proof (cases res)
    case None
    with c assms(1-4) show ?thesis by auto
  next
    case (Some w)
    with c obtain b' where w: "hd (relationChain w) = targetTable" "2 \<le> length (relationChain w)"
      "drop (length (relationChain w) - 2) (relationChain w) =
            [Table.name (heap s ! parent (found w)), Table.name (heap s ! TableRelation.table (found w))]"
      "\<not> cascades (found w)"
      and b': "b' \<in> set rels" "on_delete b' \<noteq> ''CASCADE''"
        "RelationRecord.name b' \<noteq> RelationRecord.table b'"
        "RelationRecord.table b' = Table.name (heap s ! parent (found w))"
        "RelationRecord.name b' = Table.name (heap s ! TableRelation.table (found w))"
      by auto
    from w(3) b' have "\<exists>b\<in>set rels. on_delete b \<noteq> ''CASCADE'' \<and>
        RelationRecord.name b \<noteq> RelationRecord.table b \<and>
        drop (length (relationChain w) - 2) (relationChain w) =
          [RelationRecord.table b, RelationRecord.name b]"
      by (intro bexI [of _ b']) simp_all
    with b f Some w h have "canIDelete depth rels targetTable = Some (Some w, s') \<and>
     hd (relationChain w) = targetTable \<and> 2 \<le> length (relationChain w) \<and>
     drop (length (relationChain w) - 2) (relationChain w) =
       [Table.name (heap s' ! parent (found w)), Table.name (heap s' ! TableRelation.table (found w))] \<and>
     \<not> cascades (found w) \<and>
     (\<exists>b\<in>set rels. on_delete b \<noteq> ''CASCADE'' \<and>
        RelationRecord.name b \<noteq> RelationRecord.table b \<and>
        drop (length (relationChain w) - 2) (relationChain w) =
          [RelationRecord.table b, RelationRecord.name b])"
      by (simp add: canIDelete_def)
    then show ?thesis by blast
  qed
qed

theorem unsafe_when_reachable_row_blocks_witness:
  "row ''order_items'' ''orders'' ''NO ACTION''
     \<in> set [row ''orders'' ''customers'' ''CASCADE'', row ''order_items'' ''orders'' ''NO ACTION''] \<and>
   reach [row ''orders'' ''customers'' ''CASCADE'', row ''order_items'' ''orders'' ''NO ACTION'']
     ''customers'' (RelationRecord.table (row ''order_items'' ''orders'' ''NO ACTION'')) \<and>
   (\<exists>w s'. canIDelete 6
        [row ''orders'' ''customers'' ''CASCADE'', row ''order_items'' ''orders'' ''NO ACTION'']
        ''customers'' = Some (Some w, s') \<and>
      hd (relationChain w) = ''customers'' \<and>
      drop (length (relationChain w) - 2) (relationChain w) =
        [Table.name (heap s' ! parent (found w)), Table.name (heap s' ! TableRelation.table (found w))] \<and>
      \<not> cascades (found w) \<and>
      (\<exists>b\<in>set [row ''orders'' ''customers'' ''CASCADE'', row ''order_items'' ''orders'' ''NO ACTION''].
         RelationRecord.name b \<noteq> RelationRecord.table b \<and>
         drop (length (relationChain w) - 2) (relationChain w) =
           [RelationRecord.table b, RelationRecord.name b]))"
proof -
  let ?rels = "[row ''orders'' ''customers'' ''CASCADE'', row ''order_items'' ''orders'' ''NO ACTION'']"
  have m: "row ''order_items'' ''orders'' ''NO ACTION'' \<in> set ?rels" by simp
  have "reach ?rels ''customers'' (RelationRecord.name (row ''orders'' ''customers'' ''CASCADE''))"
    by (rule reach_child [OF reach_target]) (simp_all add: row_def)
  then have r: "reach ?rels ''customers'' (RelationRecord.table (row ''order_items'' ''orders'' ''NO ACTION''))"
    by (simp add: row_def)
  have n: "RelationRecord.name (row ''order_items'' ''orders'' ''NO ACTION'')
      \<noteq> RelationRecord.table (row ''order_items'' ''orders'' ''NO ACTION'')"
    and a: "on_delete (row ''order_items'' ''orders'' ''NO ACTION'') \<noteq> ''CASCADE''"
    and d: "2 * length ?rels + 2 \<le> 6"
    by (simp_all add: row_def)
  from unsafe_when_reachable_row_blocks [OF m r n a d] m r show ?thesis by blast
qed

subsection \<open>A table that references itself\<close>

text \<open>
  Claim C3 as stated fails in its second half: for a table that references itself with
  \<open>NO ACTION\<close> the search returns \<open>null\<close>, not the chain of the table twice.
\<close>

theorem self_reference_no_action_is_safe:
  "chainOf (canIDelete 4 [row ''categories'' ''categories'' ''NO ACTION''] ''categories'') = Some None"
  by (simp add: run_simps eval_nat_numeral)

text \<open>
  Claim C3, amended.  For the schema whose only row is a table referencing itself, with
  that table as the target, the search returns \<open>null\<close> whatever the delete action is,
  \<open>CASCADE\<close> or \<open>NO ACTION\<close>.
\<close>

theorem self_reference_any_action_is_safe:
  "4 \<le> depth \<Longrightarrow> chainOf (canIDelete depth [row t t action] t) = Some None"
proof -
  assume d: "4 \<le> depth"
  from canIDelete_total [of "[row t t action]" depth t] d obtain s res s' where
    b: "build depth [row t t action] t = Some s"
    and f: "findNonCascading depth 0 s = Some (res, s')"
    and c: "case res of
        None \<Rightarrow> True
      | Some w \<Rightarrow>
          (\<exists>e\<in>set [row t t action]. RelationRecord.name e \<noteq> RelationRecord.table e)"
    by (fastforce split: option.splits)
  have "res = None"
  proof (cases res)
    case (Some w)
    with c show ?thesis by (simp add: row_def)
  qed simp
  with b f show ?thesis by (simp add: canIDelete_def chainOf_def)
qed

theorem self_reference_any_action_is_safe_witness:
  "(4::nat) \<le> 5 \<and>
   chainOf (canIDelete 5 [row ''categories'' ''categories'' ''CASCADE''] ''categories'') = Some None \<and>
   chainOf (canIDelete 5 [row ''categories'' ''categories'' ''NO ACTION''] ''categories'') = Some None"
  using self_reference_any_action_is_safe [of 5 "''categories''" "''CASCADE''"]
    self_reference_any_action_is_safe [of 5 "''categories''" "''NO ACTION''"]
  by simp

subsection \<open>Which relations the search examines\<close>

text \<open>
  Claim C4 as stated fails, the two owners are the other way round in the code.  With
  \<open>orders\<close> referencing \<open>customers\<close> with \<open>NO ACTION\<close>: the only relation of the target
  \<open>customers\<close> has owner \<open>self\<close> and the search reports it, and the only relation of
  the target \<open>orders\<close> has owner \<open>parent\<close>, does not cascade, and the search returns
  \<open>null\<close>.
\<close>

theorem self_owned_relation_is_examined:
  "map_option (\<lambda>s. map owner (relations (heap s ! 0)))
     (build 4 [row ''orders'' ''customers'' ''NO ACTION''] ''customers'') = Some [Self] \<and>
   chainOf (canIDelete 4 [row ''orders'' ''customers'' ''NO ACTION''] ''customers'')
     = Some (Some [''customers'', ''orders'']) \<and>
   map_option (\<lambda>s. map owner (relations (heap s ! 0)))
     (build 4 [row ''orders'' ''customers'' ''NO ACTION''] ''orders'') = Some [Parent] \<and>
   chainOf (canIDelete 4 [row ''orders'' ''customers'' ''NO ACTION''] ''orders'') = Some None"
  by (simp add: run_simps eval_nat_numeral)

text \<open>
  Claim C4, amended.  At every visited table the loop of the search skips every
  relation whose owner field is \<open>parent\<close> and examines exactly those whose owner field
  is \<open>self\<close>: the result and the state after the loop are the same as on the list of
  the \<open>self\<close>-owned relations alone, in the same order; and when the loop ends with
  \<open>null\<close>, every \<open>self\<close>-owned relation of the table has been examined, that is, it
  cascades and its table has been entered.
\<close>

theorem parent_owned_relations_are_skipped:
  "findRelations rec rs s = findRelations rec (filter (\<lambda>r. owner r = Self) rs) s \<and>
   (findRelations (findNonCascading depth) rs s = Some (None, s') \<longrightarrow>
      (\<forall>r\<in>set rs. owner r = Self \<longrightarrow> cascades r \<and> TableRelation.table r \<in> checkedTables s'))"
proof (intro conjI impI)
  show "findRelations rec rs s = findRelations rec (filter (\<lambda>r. owner r = Self) rs) s"
    by (rule findRelations_filter)
next
  assume "findRelations (findNonCascading depth) rs s = Some (None, s')"
  then show "\<forall>r\<in>set rs. owner r = Self \<longrightarrow> cascades r \<and> TableRelation.table r \<in> checkedTables s'"
    by (rule findRelations_null_examined)
qed

theorem parent_owned_relations_are_skipped_witness:
  "findRelations (findNonCascading 2) (relations (heap ordersGraph ! 0))
     (ordersGraph\<lparr>checkedTables := {0}\<rparr>) = Some (None, ordersGraph\<lparr>checkedTables := {1, 0}\<rparr>) \<and>
   owner (hd (relations (heap ordersGraph ! 0))) = Self \<and>
   TableRelation.table (hd (relations (heap ordersGraph ! 0)))
     \<in> checkedTables (ordersGraph\<lparr>checkedTables := {1, 0}\<rparr>)"
proof -
  have run: "findRelations (findNonCascading 2) (relations (heap ordersGraph ! 0))
     (ordersGraph\<lparr>checkedTables := {0}\<rparr>) = Some (None, ordersGraph\<lparr>checkedTables := {1, 0}\<rparr>)"
    by (simp add: ordersGraph_def eval_nat_numeral)
  have m: "hd (relations (heap ordersGraph ! 0)) \<in> set (relations (heap ordersGraph ! 0))"
    and o: "owner (hd (relations (heap ordersGraph ! 0))) = Self"
    by (simp_all add: ordersGraph_def)
  from parent_owned_relations_are_skipped
    [of "findNonCascading 2" "relations (heap ordersGraph ! 0)" "ordersGraph\<lparr>checkedTables := {0}\<rparr>"
      2 "ordersGraph\<lparr>checkedTables := {1, 0}\<rparr>"]
    run m o
  show ?thesis by blast
qed

subsection \<open>The relations the build records\<close>

text \<open>
  Claim C5 as stated fails in the owner it names.  With \<open>orders\<close> referencing
  \<open>customers\<close>, the table \<open>orders\<close>, the child of the row, gets a relation with owner
  \<open>parent\<close>, and both objects for \<open>customers\<close>, the referenced table, get a relation with
  owner \<open>self\<close>.
\<close>

theorem referencing_table_gets_owner_parent:
  "map_option (\<lambda>s. map (\<lambda>T. (Table.name T, map owner (relations T))) (heap s))
     (build 4 [row ''orders'' ''customers'' ''CASCADE''] ''customers'')
   = Some [(''customers'', [Self]), (''orders'', [Parent]), (''customers'', [Self])]"
  by (simp add: run_simps eval_nat_numeral)

text \<open>
  Claim C5, amended.  After the build, the relations of every table \<open>T\<close> in the graph
  are, in the order of the rows, one relation for each row that names \<open>T\<close>: where \<open>T\<close>
  is the row's child (the referencing table) the relation has owner \<open>parent\<close> and its
  table is an object named as the row's referenced table; otherwise, where \<open>T\<close> is the
  row's referenced table, the relation has owner \<open>self\<close> and its table is an object
  named as the row's child.  In both cases \<open>cascades\<close> is true exactly when the row's
  delete action is \<open>CASCADE\<close>.  A row in which \<open>T\<close> references itself gives a single
  relation, of the first kind.
\<close>

theorem relations_of_built_tables:
  assumes "build depth rels targetTable = Some s" and "a < length (heap s)"
  shows "map (\<lambda>r. (owner r, Table.name (heap s ! TableRelation.table r), cascades r))
           (relations (heap s ! a)) =
         concat (map (\<lambda>e.
            if RelationRecord.name e = Table.name (heap s ! a) then
              [(Parent, RelationRecord.table e, on_delete e = ''CASCADE'')]
            else if RelationRecord.table e = Table.name (heap s ! a) then
              [(Self, RelationRecord.name e, on_delete e = ''CASCADE'')]
            else []) rels)"
proof -
  from assms(1) have "built rels targetTable s" by (rule build_built)
  with assms(2) have "full rels (heap s) a" by (simp add: built_def)
  then have "map (view (heap s)) (relations (heap s ! a)) = expected (Table.name (heap s ! a)) rels"
    by (simp add: full_def)
  moreover have "view (heap s) = (\<lambda>r. (owner r, Table.name (heap s ! TableRelation.table r), cascades r))"
    by (rule ext) (simp add: view_def)
  ultimately show ?thesis by (simp add: expected_concat)
qed

theorem relations_of_built_tables_witness:
  "build 4 [row ''orders'' ''customers'' ''CASCADE''] ''customers'' = Some ordersGraph \<and>
   1 < length (heap ordersGraph) \<and>
   map (\<lambda>r. (owner r, Table.name (heap ordersGraph ! TableRelation.table r), cascades r))
     (relations (heap ordersGraph ! 1)) = [(Parent, ''customers'', True)] \<and>
   map (\<lambda>r. (owner r, Table.name (heap ordersGraph ! TableRelation.table r), cascades r))
     (relations (heap ordersGraph ! 0)) = [(Self, ''orders'', True)]"
proof -
  have l: "1 < length (heap ordersGraph)" "0 < length (heap ordersGraph)"
    by (simp_all add: ordersGraph_def)
  have n: "Table.name (heap ordersGraph ! 1) = ''orders''" "Table.name (heap ordersGraph ! 0) = ''customers''"
    by (simp_all add: ordersGraph_def)
  from relations_of_built_tables [OF build_ordersGraph l(1)]
    relations_of_built_tables [OF build_ordersGraph l(2)]
    build_ordersGraph l(1)
  show ?thesis unfolding n by (simp add: row_def)
qed

subsection \<open>One object for each table name\<close>

text \<open>
  Claim C6 does not hold of the code.  The object of the target table is created
  outside the registry, so the first \<open>tableFor\<close> for the target's name creates a second
  object with that name.  With \<open>orders\<close> referencing \<open>customers\<close> and the target
  \<open>customers\<close>, the store holds \<open>customers\<close> at indices 0 and 2, the registry maps
  \<open>customers\<close> to 2, and the relation of \<open>orders\<close> points to 2, not to the target's own
  object 0.
\<close>

theorem target_table_has_two_objects:
  "map_option (\<lambda>s. (map Table.name (heap s),
                     map (\<lambda>T. map TableRelation.table (relations T)) (heap s),
                     allTables s ''customers''))
     (build 4 [row ''orders'' ''customers'' ''CASCADE''] ''customers'')
   = Some ([''customers'', ''orders'', ''customers''], [[1], [2], [1]], Some 2)"
  by (simp add: run_simps eval_nat_numeral)

subsection \<open>Searches on the same graph\<close>




end
